theory Spec2Isabelle
  imports Main "HOL-Library.Word" "HOL-Library.AList" "HOL-Library.Multiset"
begin

unbundle bit_operations_syntax

section \<open>Platform functions used by the crawler and the downloader\<close>

text \<open>
  The repository calls into Node's \<^verbatim>\<open>URL\<close>, \<^verbatim>\<open>path\<close> and \<^verbatim>\<open>crypto\<close> modules. Their code is
  not part of the repository, so the model takes them as a record of functions:
  \<^item> \<open>parseUrl s\<close> is \<^verbatim>\<open>new URL(s)\<close>: \<open>None\<close> when the constructor throws, otherwise the
    \<^verbatim>\<open>hostname\<close> and the \<^verbatim>\<open>pathname\<close> of the parsed URL;
  \<^item> \<open>pathJoin\<close>, \<open>pathDirname\<close>, \<open>pathBasename\<close> are \<^verbatim>\<open>path.join\<close>, \<^verbatim>\<open>path.dirname\<close>,
    \<^verbatim>\<open>path.basename\<close>;
  \<^item> \<open>md5hex b\<close> is \<^verbatim>\<open>crypto.createHash('md5').update(b).digest('hex')\<close>.
  A buffer is a list of bytes.
\<close>

type_synonym buffer = "8 word list"

record platform =
  parseUrl :: "string \<Rightarrow> (string \<times> string) option"
  pathJoin :: "string list \<Rightarrow> string"
  pathDirname :: "string \<Rightarrow> string"
  pathBasename :: "string \<Rightarrow> string"
  md5hex :: "buffer \<Rightarrow> string"

section \<open>JavaScript string helpers\<close>

text \<open>
  \<^verbatim>\<open>String.prototype.toLowerCase\<close> on the characters a URL is made of: the letters A-Z are
  mapped to a-z, every other character is kept. (A normalised URL, the \<^verbatim>\<open>href\<close> of a parsed
  URL, is ASCII.)
\<close>

definition lowerChar :: "char \<Rightarrow> char" where
  "lowerChar c =
     (case map_of (zip ''ABCDEFGHIJKLMNOPQRSTUVWXYZ'' ''abcdefghijklmnopqrstuvwxyz'') c of
        None \<Rightarrow> c
      | Some l \<Rightarrow> l)"

definition toLowerCase :: "string \<Rightarrow> string" where
  "toLowerCase s = map lowerChar s"

text \<open>\<^verbatim>\<open>s.startsWith(k)\<close> and \<^verbatim>\<open>s.includes(k)\<close>: \<open>k\<close> occurs in \<open>s\<close> as a contiguous substring.\<close>

fun startsWith :: "string \<Rightarrow> string \<Rightarrow> bool" where
  "startsWith s [] = True"
| "startsWith [] (k # ks) = False"
| "startsWith (c # cs) (k # ks) = (c = k \<and> startsWith cs ks)"

fun includes_str :: "string \<Rightarrow> string \<Rightarrow> bool" where
  "includes_str [] k = (k = [])"
| "includes_str (c # cs) k = (startsWith (c # cs) k \<or> includes_str cs k)"

text \<open>\<^verbatim>\<open>s.split('/')\<close>: the pieces between the separators, empty pieces included.\<close>

fun split_on :: "char \<Rightarrow> string \<Rightarrow> string list" where
  "split_on sep [] = [[]]"
| "split_on sep (c # cs) =
     (case split_on sep cs of
        [] \<Rightarrow> (if c = sep then [[], []] else [[c]])
      | p # ps \<Rightarrow> (if c = sep then [] # p # ps else (c # p) # ps))"

text \<open>\<^verbatim>\<open>parts.join('/')\<close>.\<close>

fun join_with :: "string \<Rightarrow> string list \<Rightarrow> string" where
  "join_with sep [] = []"
| "join_with sep [p] = p"
| "join_with sep (p # q # ps) = p @ sep @ join_with sep (q # ps)"

section \<open>NavigationCrawler (core/navigation\_crawler)\<close>

text \<open>
  \<^verbatim>\<open>this.config\<close>: \<open>levelLimits\<close> is a JavaScript object indexed by level, \<open>None\<close> where the
  key is absent (\<^verbatim>\<open>undefined\<close>). The navigation selectors only feed the DOM extraction and are
  left out.
\<close>

record config =
  maxLevel :: int
  levelLimits :: "int \<rightharpoonup> int"
  legalKeywords :: "string list"

text \<open>The three maps of the crawler object: URL to level, level to count, category to pages.\<close>

record crawler =
  cfg :: config
  urlLevels :: "string \<rightharpoonup> int"
  levelCounts :: "int \<rightharpoonup> int"
  categoryPages :: "string \<rightharpoonup> string list"

text \<open>The constructor's defaults, and a crawler as the constructor leaves it.\<close>

definition default_config :: config where
  "default_config =
     \<lparr> maxLevel = 3,
       levelLimits = [1 \<mapsto> - 1, 2 \<mapsto> - 1, 3 \<mapsto> 1],
       legalKeywords = [''impressum'', ''datenschutz'', ''agb'', ''privacy'',
                        ''terms'', ''legal'', ''cookies'', ''disclaimer''] \<rparr>"

definition new_crawler :: "config \<Rightarrow> crawler" where
  "new_crawler c =
     \<lparr> cfg = c, urlLevels = Map.empty, levelCounts = Map.empty, categoryPages = Map.empty \<rparr>"

text \<open>
  \<^verbatim>\<open>isLegalPage(url)\<close>: the URL is lower-cased, the keywords are used as configured.
\<close>

definition isLegalPage :: "crawler \<Rightarrow> string \<Rightarrow> bool" where
  "isLegalPage c url =
     (let urlLower = toLowerCase url
      in list_ex (\<lambda>keyword. includes_str urlLower keyword) (legalKeywords (cfg c)))"

text \<open>
  \<^verbatim>\<open>determineLevel(url, parentUrl)\<close>. The parent is \<open>None\<close> for \<^verbatim>\<open>null\<close>; \<^verbatim>\<open>!parentUrl\<close> also
  holds for the empty string. \<^verbatim>\<open>this.urlLevels.get(parentUrl) || 0\<close> is 0 for an unknown
  parent.
\<close>

definition parentLevel :: "crawler \<Rightarrow> string \<Rightarrow> int" where
  "parentLevel c parentUrl = (case urlLevels c parentUrl of None \<Rightarrow> 0 | Some l \<Rightarrow> l)"

definition determineLevel :: "crawler \<Rightarrow> string \<Rightarrow> string option \<Rightarrow> int" where
  "determineLevel c url parentUrl =
     (if isLegalPage c url then 0
      else case parentUrl of
             None \<Rightarrow> 1
           | Some p \<Rightarrow> if p = [] then 1 else parentLevel c p + 1)"

text \<open>\<^verbatim>\<open>this.levelCounts.get(level) || 0\<close>.\<close>

definition levelCount :: "crawler \<Rightarrow> int \<Rightarrow> int" where
  "levelCount c level = (case levelCounts c level of None \<Rightarrow> 0 | Some n \<Rightarrow> n)"

text \<open>
  \<^verbatim>\<open>shouldCrawl(url, parentUrl)\<close>. A comparison with an absent limit (\<^verbatim>\<open>undefined\<close>) is
  false.
\<close>

definition shouldCrawl :: "crawler \<Rightarrow> string \<Rightarrow> string option \<Rightarrow> bool" where
  "shouldCrawl c url parentUrl =
     (let level = determineLevel c url parentUrl
      in if level = 0 then True
         else if level > maxLevel (cfg c) then False
         else case levelLimits (cfg c) level of
                None \<Rightarrow> False
              | Some limit \<Rightarrow> if limit = - 1 then True else levelCount c level < limit)"

text \<open>\<^verbatim>\<open>registerUrl(url, parentUrl)\<close>: the level it returns, and the crawler after the call.\<close>

definition registerUrl :: "crawler \<Rightarrow> string \<Rightarrow> string option \<Rightarrow> int \<times> crawler" where
  "registerUrl c url parentUrl =
     (let level = determineLevel c url parentUrl;
          c1 = c\<lparr> urlLevels := (urlLevels c)(url \<mapsto> level) \<rparr>;
          currentCount = levelCount c1 level
      in (level, c1\<lparr> levelCounts := (levelCounts c1)(level \<mapsto> currentCount + 1) \<rparr>))"

text \<open>
  \<^verbatim>\<open>getCategory(url)\<close>: \<open>None\<close> when \<^verbatim>\<open>new URL(url)\<close> throws; otherwise the first two
  non-empty segments of the pathname joined by a slash, or \<^verbatim>\<open>'root'\<close> when there is none.
\<close>

definition getCategory :: "platform \<Rightarrow> string \<Rightarrow> string option" where
  "getCategory P url =
     (case parseUrl P url of
        None \<Rightarrow> None
      | Some (hostname, pathname) \<Rightarrow>
          (let pathParts = filter (\<lambda>p. p \<noteq> []) (split_on CHR ''/'' pathname);
               joined = join_with ''/'' (take 2 pathParts)
           in Some (if joined = [] then ''root'' else joined)))"

text \<open>\<^verbatim>\<open>this.categoryPages.get(category) || []\<close>.\<close>

definition pagesInCategory :: "crawler \<Rightarrow> string \<Rightarrow> string list" where
  "pagesInCategory c category = (case categoryPages c category of None \<Rightarrow> [] | Some ps \<Rightarrow> ps)"

text \<open>\<^verbatim>\<open>this.config.levelLimits[3] || 1\<close>: 1 when the entry is absent or 0.\<close>

definition level3Limit :: "crawler \<Rightarrow> int" where
  "level3Limit c =
     (case levelLimits (cfg c) 3 of None \<Rightarrow> 1 | Some l \<Rightarrow> if l = 0 then 1 else l)"

text \<open>\<^verbatim>\<open>shouldCrawlLevel3(url)\<close> and \<^verbatim>\<open>registerLevel3Page(url)\<close>; \<open>None\<close> when getCategory throws.\<close>

definition shouldCrawlLevel3 :: "platform \<Rightarrow> crawler \<Rightarrow> string \<Rightarrow> bool option" where
  "shouldCrawlLevel3 P c url =
     (case getCategory P url of
        None \<Rightarrow> None
      | Some category \<Rightarrow> Some (int (length (pagesInCategory c category)) < level3Limit c))"

definition registerLevel3Page :: "platform \<Rightarrow> crawler \<Rightarrow> string \<Rightarrow> crawler option" where
  "registerLevel3Page P c url =
     (case getCategory P url of
        None \<Rightarrow> None
      | Some category \<Rightarrow>
          Some (c\<lparr> categoryPages :=
                    (categoryPages c)(category \<mapsto> pagesInCategory c category @ [url]) \<rparr>))"

subsection \<open>prioritizeUrls\<close>

text \<open>A pending work item, as scrapePage pushes it.\<close>

record workItem =
  url :: string
  parentUrl :: "string option"
  level :: int
  isNavigation :: bool

text \<open>
  \<^verbatim>\<open>this.urlLevels.get(a.url) || 999\<close>: 999 for an unregistered URL, and also for a stored
  level 0, which is falsy.
\<close>

definition sortLevel :: "crawler \<Rightarrow> workItem \<Rightarrow> int" where
  "sortLevel c a = (case urlLevels c (url a) of None \<Rightarrow> 999 | Some l \<Rightarrow> if l = 0 then 999 else l)"

text \<open>The comparator passed to \<^verbatim>\<open>urls.sort\<close>, branch by branch.\<close>

definition compareItems :: "crawler \<Rightarrow> workItem \<Rightarrow> workItem \<Rightarrow> int" where
  "compareItems c a b =
     (let levelA = sortLevel c a; levelB = sortLevel c b
      in if levelA = 0 \<and> levelB \<noteq> 0 then - 1
         else if levelB = 0 \<and> levelA \<noteq> 0 then 1
         else if levelA \<noteq> levelB then levelA - levelB
         else if isNavigation a \<and> \<not> isNavigation b then - 1
         else if isNavigation b \<and> \<not> isNavigation a then 1
         else 0)"

text \<open>
  \<^verbatim>\<open>Array.prototype.sort\<close> is stable: an item moves behind exactly the items that compare
  strictly smaller. Stable insertion gives that order for a comparator that is a consistent
  ordering, as this one is.
\<close>

fun insertItem :: "('a \<Rightarrow> 'a \<Rightarrow> int) \<Rightarrow> 'a \<Rightarrow> 'a list \<Rightarrow> 'a list" where
  "insertItem cmp x [] = [x]"
| "insertItem cmp x (y # ys) = (if cmp x y \<le> 0 then x # y # ys else y # insertItem cmp x ys)"

definition stableSort :: "('a \<Rightarrow> 'a \<Rightarrow> int) \<Rightarrow> 'a list \<Rightarrow> 'a list" where
  "stableSort cmp xs = foldr (insertItem cmp) xs []"

definition prioritizeUrls :: "crawler \<Rightarrow> workItem list \<Rightarrow> workItem list" where
  "prioritizeUrls c urls = stableSort (compareItems c) urls"

section \<open>The crawl loop's use of the crawler (core/scraper\_with\_images)\<close>

text \<open>
  The part of the scraper object the crawler interacts with: the crawler itself, the
  pending work items and the set of visited URLs.
\<close>

record scraper =
  navCrawler :: crawler
  pendingUrls :: "workItem list"
  visitedUrls :: "string set"

text \<open>
  scrapeWebsite starts with the base URL pending at level 1.
\<close>

definition start_scraper :: "config \<Rightarrow> string \<Rightarrow> scraper" where
  "start_scraper c baseUrl =
     \<lparr> navCrawler = new_crawler c,
       pendingUrls = [\<lparr> url = baseUrl, parentUrl = None, level = 1, isNavigation = True \<rparr>],
       visitedUrls = {} \<rparr>"

text \<open>
  The admission of one link in scrapePage (``Add to pending if not visited and should
  crawl''): \<open>absoluteUrl\<close> is the normalised internal link, \<open>pageUrl\<close> the page it was found
  on. \<open>None\<close> when getCategory throws; nothing has been changed at that point, and
  scrapePage's handler records the page as failed.
\<close>

definition admitLink :: "platform \<Rightarrow> scraper \<Rightarrow> string \<Rightarrow> string \<Rightarrow> bool \<Rightarrow> scraper option" where
  "admitLink P s absoluteUrl pageUrl isNav =
     (if absoluteUrl \<notin> visitedUrls s \<and> shouldCrawl (navCrawler s) absoluteUrl (Some pageUrl) then
        (let lvl = determineLevel (navCrawler s) absoluteUrl (Some pageUrl);
             item = \<lparr> url = absoluteUrl, parentUrl = Some pageUrl, level = lvl, isNavigation = isNav \<rparr>
         in if lvl = 3 then
              (case shouldCrawlLevel3 P (navCrawler s) absoluteUrl of
                 None \<Rightarrow> None
               | Some False \<Rightarrow> Some s
               | Some True \<Rightarrow>
                   (case registerLevel3Page P (navCrawler s) absoluteUrl of
                      None \<Rightarrow> None
                    | Some c' \<Rightarrow> Some (s\<lparr> pendingUrls := pendingUrls s @ [item], navCrawler := c' \<rparr>)))
            else Some (s\<lparr> pendingUrls := pendingUrls s @ [item] \<rparr>))
      else Some s)"

text \<open>
  The head of scrapeWebsite's loop: sort the pending items, take the first, skip it when
  its URL was visited, otherwise mark it visited and register it.
\<close>

definition dequeueNext :: "scraper \<Rightarrow> scraper" where
  "dequeueNext s =
     (case prioritizeUrls (navCrawler s) (pendingUrls s) of
        [] \<Rightarrow> s
      | item # rest \<Rightarrow>
          if url item \<in> visitedUrls s then s\<lparr> pendingUrls := rest \<rparr>
          else s\<lparr> pendingUrls := rest,
                  visitedUrls := insert (url item) (visitedUrls s),
                  navCrawler := snd (registerUrl (navCrawler s) (url item) (parentUrl item)) \<rparr>)"

text \<open>
  The operations that change the crawler during a crawl: a link admission, a dequeue, and
  the crawler's own methods called directly (registerUrl, and registerLevel3Page behind its
  guard shouldCrawlLevel3). An operation that throws leaves the state as it was.
\<close>

datatype crawl_op =
    AdmitLink string string bool
  | Dequeue
  | RegisterUrl string "string option"
  | GuardedLevel3 string

fun crawl_step :: "platform \<Rightarrow> scraper \<Rightarrow> crawl_op \<Rightarrow> scraper" where
  "crawl_step P s (AdmitLink absoluteUrl pageUrl isNav) =
     (case admitLink P s absoluteUrl pageUrl isNav of None \<Rightarrow> s | Some s' \<Rightarrow> s')"
| "crawl_step P s Dequeue = dequeueNext s"
| "crawl_step P s (RegisterUrl u parent) =
     s\<lparr> navCrawler := snd (registerUrl (navCrawler s) u parent) \<rparr>"
| "crawl_step P s (GuardedLevel3 u) =
     (case shouldCrawlLevel3 P (navCrawler s) u of
        Some True \<Rightarrow>
          (case registerLevel3Page P (navCrawler s) u of
             None \<Rightarrow> s
           | Some c' \<Rightarrow> s\<lparr> navCrawler := c' \<rparr>)
      | _ \<Rightarrow> s)"

definition crawl_run :: "platform \<Rightarrow> scraper \<Rightarrow> crawl_op list \<Rightarrow> scraper" where
  "crawl_run P s ops = foldl (crawl_step P) s ops"

text \<open>
  The work items an operation pushes to the pending list (only a link admission pushes),
  and the items pushed during a sequence of operations: the URLs admitted.
\<close>

definition pushedBy :: "platform \<Rightarrow> scraper \<Rightarrow> crawl_op \<Rightarrow> workItem list" where
  "pushedBy P s op =
     (case op of
        AdmitLink absoluteUrl pageUrl isNav \<Rightarrow>
          (case admitLink P s absoluteUrl pageUrl isNav of
             None \<Rightarrow> []
           | Some s' \<Rightarrow> drop (length (pendingUrls s)) (pendingUrls s'))
      | Dequeue \<Rightarrow> []
      | RegisterUrl u parent \<Rightarrow> []
      | GuardedLevel3 u \<Rightarrow> [])"

fun admitted :: "platform \<Rightarrow> scraper \<Rightarrow> crawl_op list \<Rightarrow> workItem list" where
  "admitted P s [] = []"
| "admitted P s (op # ops) = pushedBy P s op @ admitted P (crawl_step P s op) ops"

text \<open>The items of level 3 whose URL is of a given category.\<close>

definition level3In :: "platform \<Rightarrow> string \<Rightarrow> workItem list \<Rightarrow> workItem list" where
  "level3In P category items =
     filter (\<lambda>item. level item = 3 \<and> getCategory P (url item) = Some category) items"

text \<open>The bound the crawler keeps on every category bucket.\<close>

definition categoryBound :: "crawler \<Rightarrow> bool" where
  "categoryBound c =
     (\<forall>category. int (length (pagesInCategory c category)) \<le> max 0 (level3Limit c))"

section \<open>EnhancedImageDownloader (utils/image\_downloader\_enhanced)\<close>

text \<open>
  The statistics and the object. A JavaScript \<^verbatim>\<open>Map\<close> keeps its keys in insertion order, and
  generateManifest iterates over the maps, so each map is an association list: \<open>map_of\<close> is
  \<^verbatim>\<open>get\<close>, \<open>AList.update\<close> is \<^verbatim>\<open>set\<close> (a new key goes to the end, a known key keeps its place).
\<close>

record dl_stats =
  total :: nat
  downloaded :: nat
  duplicates :: nat
  failed :: nat
  totalSize :: nat

record downloader =
  baseOutputDir :: string
  maxSize :: int
  timeout :: int
  hashToPath :: "(string \<times> string) list"
  urlToHash :: "(string \<times> string) list"
  urlToPath :: "(string \<times> string) list"
  stats :: dl_stats

text \<open>The constructor: \<^verbatim>\<open>config.x || default\<close> takes the default for an absent, empty or zero value.\<close>

record dl_config =
  outputDir :: "string option"
  cfgMaxSize :: "int option"
  cfgTimeout :: "int option"

definition new_downloader :: "dl_config \<Rightarrow> downloader" where
  "new_downloader conf =
     \<lparr> baseOutputDir = (case outputDir conf of None \<Rightarrow> ''./output/images''
                                           | Some dir \<Rightarrow> if dir = [] then ''./output/images'' else dir),
       maxSize = (case cfgMaxSize conf of None \<Rightarrow> 10 * 1024 * 1024
                                      | Some m \<Rightarrow> if m = 0 then 10 * 1024 * 1024 else m),
       timeout = (case cfgTimeout conf of None \<Rightarrow> 30000 | Some t \<Rightarrow> if t = 0 then 30000 else t),
       hashToPath = [], urlToHash = [], urlToPath = [],
       stats = \<lparr> total = 0, downloaded = 0, duplicates = 0, failed = 0, totalSize = 0 \<rparr> \<rparr>"

text \<open>
  What a download does outside the object: the files written with \<^verbatim>\<open>fs.writeFileSync\<close> (path
  and content, in order), the directories known to exist, and the URLs requested with
  \<^verbatim>\<open>protocol.get\<close>.
\<close>

record world =
  files :: "(string \<times> buffer) list"
  dirs :: "string list"
  requests :: "string list"

definition new_world :: world where
  "new_world = \<lparr> files = [], dirs = [], requests = [] \<rparr>"

text \<open>
  What the environment does during one call. \<^verbatim>\<open>protocol.get\<close> throws (as the http module
  does for a URL that is neither http nor https), or the request fails or times out before
  a response, or a response arrives with its status code, its parsed \<^verbatim>\<open>content-length\<close>
  (\<open>None\<close> when parseInt gives NaN), the chunks of the body that are delivered to the
  \<^verbatim>\<open>'data'\<close> handler, and the event that follows them: \<^verbatim>\<open>'end'\<close> on the response, \<^verbatim>\<open>'error'\<close> or
  \<^verbatim>\<open>'timeout'\<close> on the request, or none at all (\<open>StreamAborted\<close>: the connection is closed
  while the body is read; the code listens to no event of that kind).
  \<open>mkdirOk\<close> and \<open>writeOk\<close> say whether \<^verbatim>\<open>fs.mkdirSync\<close> and \<^verbatim>\<open>fs.writeFileSync\<close> succeed.
\<close>

datatype stream_end = StreamEnd | StreamError | StreamTimeout | StreamAborted

datatype net_outcome =
    RequestThrows
  | RequestError
  | RequestTimeout
  | Response int "int option" "buffer list" stream_end

record call_env =
  net :: net_outcome
  mkdirOk :: bool
  writeOk :: bool

text \<open>The errors a call rejects with.\<close>

datatype failure =
    InvalidUrl
  | InvalidProtocol
  | FsError
  | NetError
  | DownloadTimeout
  | HttpError int
  | ImageTooLarge int
  | SizeExceeded

text \<open>The object a call resolves with.\<close>

record downloadResult =
  r_url :: string
  r_localPath :: string
  r_hash :: "string option"
  r_duplicate :: bool
  r_cached :: bool
  r_duplicateOf :: "string option"
  r_size :: "nat option"

text \<open>
  \<^verbatim>\<open>simpleHash(str)\<close>: \<^verbatim>\<open>hash = ((hash << 5) - hash) + char; hash = hash & hash\<close> keeps the hash
  a signed 32-bit integer; the result is \<^verbatim>\<open>Math.abs(hash).toString(36)\<close>.
\<close>

fun toString36 :: "nat \<Rightarrow> string" where
  "toString36 n =
     (if n < 36 then [''0123456789abcdefghijklmnopqrstuvwxyz'' ! n]
      else toString36 (n div 36) @ [''0123456789abcdefghijklmnopqrstuvwxyz'' ! (n mod 36)])"

definition simpleHash :: "string \<Rightarrow> string" where
  "simpleHash str =
     (let hash = foldl (\<lambda>h c. (push_bit 5 h - h) + of_nat (of_char c)) (0 :: 32 word) str
      in toString36 (nat \<bar>sint hash\<bar>))"

text \<open>
  \<^verbatim>\<open>getLocalPathFromUrl(imageUrl, baseUrl)\<close>: the output directory, the host and the path of
  the image URL; the fallback name when one of the two URLs does not parse.
\<close>

definition fallbackPath :: "platform \<Rightarrow> downloader \<Rightarrow> string \<Rightarrow> string" where
  "fallbackPath P d imageUrl =
     pathJoin P [baseOutputDir d, ''fallback'', ''image_'' @ simpleHash imageUrl @ ''.jpg'']"

definition getLocalPathFromUrl :: "platform \<Rightarrow> downloader \<Rightarrow> string \<Rightarrow> string \<Rightarrow> string" where
  "getLocalPathFromUrl P d imageUrl baseUrl =
     (case parseUrl P imageUrl of
        None \<Rightarrow> fallbackPath P d imageUrl
      | Some (hostname, pathname) \<Rightarrow>
          (case parseUrl P baseUrl of
             None \<Rightarrow> fallbackPath P d imageUrl
           | Some _ \<Rightarrow>
               (let cleanPath = (if startsWith pathname ''/'' then drop 1 pathname else pathname)
                in pathJoin P [baseOutputDir d, hostname, cleanPath])))"

text \<open>The counters of \<^verbatim>\<open>this.stats\<close>.\<close>

definition incTotal :: "downloader \<Rightarrow> downloader" where
  "incTotal d = d\<lparr> stats := (stats d)\<lparr> total := total (stats d) + 1 \<rparr> \<rparr>"

definition incDuplicates :: "downloader \<Rightarrow> downloader" where
  "incDuplicates d = d\<lparr> stats := (stats d)\<lparr> duplicates := duplicates (stats d) + 1 \<rparr> \<rparr>"

definition incFailed :: "downloader \<Rightarrow> downloader" where
  "incFailed d = d\<lparr> stats := (stats d)\<lparr> failed := failed (stats d) + 1 \<rparr> \<rparr>"

text \<open>
  The \<^verbatim>\<open>'data'\<close> handler over the chunks delivered: the size is added up and checked against
  the maximum before the chunk is appended. When the maximum is exceeded the handler
  destroys the request, rejects the promise and returns without appending the chunk; the
  flag records that rejection. No handler looks at it: chunks and events delivered after it
  are handled like the others.
\<close>

fun receiveChunks :: "int \<Rightarrow> buffer list \<Rightarrow> buffer \<Rightarrow> nat \<Rightarrow> bool \<Rightarrow> buffer \<times> nat \<times> bool" where
  "receiveChunks maxS [] downloadedData downloadedSize rejected =
     (downloadedData, downloadedSize, rejected)"
| "receiveChunks maxS (chunk # rest) downloadedData downloadedSize rejected =
     (let newSize = downloadedSize + length chunk
      in if int newSize > maxS then receiveChunks maxS rest downloadedData newSize True
         else receiveChunks maxS rest (downloadedData @ chunk) newSize rejected)"

text \<open>
  A promise is settled once: \<^verbatim>\<open>resolve\<close> and \<^verbatim>\<open>reject\<close> on a settled promise change nothing.
  \<open>None\<close> is a promise that is still pending.
\<close>

definition settle :: "'r option \<Rightarrow> 'r \<Rightarrow> 'r option" where
  "settle settled r = (case settled of None \<Rightarrow> Some r | Some first \<Rightarrow> Some first)"

text \<open>
  The \<^verbatim>\<open>'end'\<close> handler: the hash of the body is looked up; known content is not written and
  the URL is mapped to the existing path, new content is written to \<open>localPath\<close> and
  registered. A failing write rejects and registers nothing.
\<close>

definition onEnd ::
  "platform \<Rightarrow> call_env \<Rightarrow> string \<Rightarrow> string \<Rightarrow> buffer \<Rightarrow> nat \<Rightarrow> downloader \<times> world
     \<Rightarrow> (failure + downloadResult) \<times> downloader \<times> world" where
  "onEnd P env imageUrl localPath downloadedData downloadedSize dw =
     (let d = fst dw; w = snd dw; h = md5hex P downloadedData
      in case map_of (hashToPath d) h of
           Some existingPath \<Rightarrow>
             (Inr \<lparr> r_url = imageUrl, r_localPath = existingPath, r_hash = Some h,
                    r_duplicate = True, r_cached = False, r_duplicateOf = Some existingPath,
                    r_size = Some downloadedSize \<rparr>,
              incDuplicates (d\<lparr> urlToHash := AList.update imageUrl h (urlToHash d),
                                urlToPath := AList.update imageUrl existingPath (urlToPath d) \<rparr>),
              w)
         | None \<Rightarrow>
             if \<not> writeOk env then (Inl FsError, d, w)
             else
               (Inr \<lparr> r_url = imageUrl, r_localPath = localPath, r_hash = Some h,
                      r_duplicate = False, r_cached = False, r_duplicateOf = None,
                      r_size = Some downloadedSize \<rparr>,
                d\<lparr> hashToPath := AList.update h localPath (hashToPath d),
                   urlToHash := AList.update imageUrl h (urlToHash d),
                   urlToPath := AList.update imageUrl localPath (urlToPath d),
                   stats := (stats d)\<lparr> downloaded := downloaded (stats d) + 1,
                                         totalSize := totalSize (stats d) + downloadedSize \<rparr> \<rparr>,
                w\<lparr> files := files w @ [(localPath, downloadedData)] \<rparr>))"

text \<open>
  \<^verbatim>\<open>contentLength && contentLength > this.maxSize\<close>: false for NaN and for 0; otherwise
  the declared length that is too large.
\<close>

definition declaredExcess :: "int \<Rightarrow> int option \<Rightarrow> int option" where
  "declaredExcess maxS contentLength =
     (case contentLength of
        None \<Rightarrow> None
      | Some n \<Rightarrow> if n \<noteq> 0 \<and> n > maxS then Some n else None)"

text \<open>
  The \<^verbatim>\<open>'error'\<close> and \<^verbatim>\<open>'timeout'\<close> handlers of the request are attached for every request;
  each counts a failure (and rejects). This is what they do to the object when the
  response callback has returned early and the handlers of the response are not attached.
\<close>

definition requestEvent :: "stream_end \<Rightarrow> downloader \<Rightarrow> downloader" where
  "requestEvent ending d =
     (case ending of
        StreamError \<Rightarrow> incFailed d
      | StreamTimeout \<Rightarrow> incFailed d
      | StreamEnd \<Rightarrow> d
      | StreamAborted \<Rightarrow> d)"

text \<open>
  The response callback: the status check and the check of the declared length (each
  rejects and returns before the handlers of the response are attached), then the chunks
  and the event after them. The \<^verbatim>\<open>'end'\<close> handler runs whether or not the \<^verbatim>\<open>'data'\<close> handler
  has rejected: it hashes, writes and registers what was appended, and its \<^verbatim>\<open>resolve\<close> comes
  too late. When nothing follows the chunks and nothing was rejected, the promise stays
  pending.
\<close>

definition onResponse ::
  "platform \<Rightarrow> call_env \<Rightarrow> string \<Rightarrow> string \<Rightarrow> int \<Rightarrow> int option \<Rightarrow> buffer list \<Rightarrow> stream_end
     \<Rightarrow> downloader \<times> world \<Rightarrow> (failure + downloadResult) option \<times> downloader \<times> world" where
  "onResponse P env imageUrl localPath statusCode contentLength chunks ending dw =
     (let d = fst dw; w = snd dw
      in if statusCode \<noteq> 200 then (Some (Inl (HttpError statusCode)), requestEvent ending d, w)
         else case declaredExcess (maxSize d) contentLength of
                Some n \<Rightarrow> (Some (Inl (ImageTooLarge n)), requestEvent ending d, w)
              | None \<Rightarrow>
                  (case receiveChunks (maxSize d) chunks [] 0 False of
                     (downloadedData, downloadedSize, rejected) \<Rightarrow>
                       (let settled = (if rejected then Some (Inl SizeExceeded) else None)
                        in case ending of
                             StreamEnd \<Rightarrow>
                               (let ended = onEnd P env imageUrl localPath downloadedData
                                              downloadedSize (d, w)
                                in (settle settled (fst ended), snd ended))
                           | StreamError \<Rightarrow> (settle settled (Inl NetError), incFailed d, w)
                           | StreamTimeout \<Rightarrow> (settle settled (Inl DownloadTimeout), incFailed d, w)
                           | StreamAborted \<Rightarrow> (settled, d, w))))"

text \<open>
  \<^verbatim>\<open>downloadImage(imageUrl, baseUrl)\<close>: the promise (\<open>None\<close> while pending for ever,
  \<open>Some (Inl e)\<close> rejected, \<open>Some (Inr r)\<close> resolved), the object and the world after the call.
  A timeout before the response counts two failures: its handler destroys the request,
  which raises the request's \<^verbatim>\<open>'error'\<close> event, and both handlers count. The choice between
  the http and https modules, the request headers and the console output are left out.
\<close>

definition downloadImage ::
  "platform \<Rightarrow> call_env \<Rightarrow> string \<Rightarrow> string \<Rightarrow> downloader \<times> world
     \<Rightarrow> (failure + downloadResult) option \<times> downloader \<times> world" where
  "downloadImage P env imageUrl baseUrl dw =
     (let d = incTotal (fst dw); w = snd dw
      in case map_of (urlToPath d) imageUrl of
           Some cachedPath \<Rightarrow>
             (Some (Inr \<lparr> r_url = imageUrl, r_localPath = cachedPath,
                          r_hash = map_of (urlToHash d) imageUrl,
                          r_duplicate = True, r_cached = True, r_duplicateOf = None,
                          r_size = None \<rparr>),
              incDuplicates d, w)
         | None \<Rightarrow>
             (case parseUrl P imageUrl of
                None \<Rightarrow> (Some (Inl InvalidUrl), incFailed d, w)
              | Some _ \<Rightarrow>
                  (let localPath = getLocalPathFromUrl P d imageUrl baseUrl;
                       localDir = pathDirname P localPath
                   in if localDir \<notin> set (dirs w) \<and> \<not> mkdirOk env
                      then (Some (Inl FsError), incFailed d, w)
                      else
                        (let w1 = (if localDir \<in> set (dirs w) then w
                                   else w\<lparr> dirs := dirs w @ [localDir] \<rparr>);
                             w2 = w1\<lparr> requests := requests w1 @ [imageUrl] \<rparr>
                         in case net env of
                              RequestThrows \<Rightarrow> (Some (Inl InvalidProtocol), incFailed d, w1)
                            | RequestError \<Rightarrow> (Some (Inl NetError), incFailed d, w2)
                            | RequestTimeout \<Rightarrow>
                                (Some (Inl DownloadTimeout), incFailed (incFailed d), w2)
                            | Response statusCode contentLength chunks ending \<Rightarrow>
                                onResponse P env imageUrl localPath statusCode contentLength
                                  chunks ending (d, w2)))))"

text \<open>A job: calls of downloadImage one after the other, each with what the environment does.\<close>

definition run_job ::
  "platform \<Rightarrow> string \<Rightarrow> (string \<times> call_env) list \<Rightarrow> downloader \<times> world \<Rightarrow> downloader \<times> world" where
  "run_job P baseUrl calls dw =
     foldl (\<lambda>st call. snd (downloadImage P (snd call) (fst call) baseUrl st)) dw calls"

subsection \<open>downloadAllImages\<close>

text \<open>
  An image of a page, with the fields updatePagesWithLocalPaths adds, and a page.
  \<open>images\<close> is \<open>None\<close> when the page has no \<^verbatim>\<open>images\<close> array; an absent \<^verbatim>\<open>src\<close> is the empty
  string, which is falsy as well.
\<close>

record image =
  src :: string
  alt :: string
  img_localPath :: "string option"
  img_hash :: "string option"
  img_duplicate :: "bool option"

record page =
  page_url :: string
  images :: "image list option"

text \<open>\<^verbatim>\<open>uniqueImageUrls.add(img.src)\<close> on a \<^verbatim>\<open>Set\<close>, which keeps the order of first insertion.\<close>

definition set_add :: "string \<Rightarrow> string list \<Rightarrow> string list" where
  "set_add x xs = (if x \<in> set xs then xs else xs @ [x])"

definition collectUrls :: "page list \<Rightarrow> string list" where
  "collectUrls pages =
     foldl (\<lambda>acc pg. case images pg of
                       None \<Rightarrow> acc
                     | Some imgs \<Rightarrow>
                         foldl (\<lambda>acc2 img. if src img \<noteq> [] then set_add (src img) acc2 else acc2) acc imgs)
       [] pages"

text \<open>The result of a batch.\<close>

record batchResult =
  success :: "downloadResult list"
  failedList :: "(string \<times> failure) list"
  duplicatesList :: "downloadResult list"

text \<open>
  The loop over the unique URLs: \<open>env u\<close> is what the environment does for \<open>u\<close>. A resolved
  call goes to the duplicates or to the success list, a rejected one to the failed list,
  and the loop goes on. When a promise stays pending the \<^verbatim>\<open>await\<close> never returns and neither
  does the loop: \<open>None\<close>. The progress callback and the delay are left out.
\<close>

fun downloadLoop ::
  "platform \<Rightarrow> (string \<Rightarrow> call_env) \<Rightarrow> string \<Rightarrow> string list
     \<Rightarrow> batchResult \<times> downloader \<times> world \<Rightarrow> (batchResult \<times> downloader \<times> world) option" where
  "downloadLoop P env baseUrl [] st = Some st"
| "downloadLoop P env baseUrl (imageUrl # rest) st =
     (let results = fst st;
          called = downloadImage P (env imageUrl) imageUrl baseUrl (snd st)
      in case fst called of
           None \<Rightarrow> None
         | Some (Inr result) \<Rightarrow>
             downloadLoop P env baseUrl rest
               (if r_duplicate result
                then results\<lparr> duplicatesList := duplicatesList results @ [result] \<rparr>
                else results\<lparr> success := success results @ [result] \<rparr>,
                snd called)
         | Some (Inl err) \<Rightarrow>
             downloadLoop P env baseUrl rest
               (results\<lparr> failedList := failedList results @ [(imageUrl, err)] \<rparr>, snd called))"

text \<open>
  \<^verbatim>\<open>downloadAllImages(pages, baseUrl)\<close>: the result with its statistics, the object and the
  world; \<open>None\<close> when the function never returns.
\<close>

definition downloadAllImages ::
  "platform \<Rightarrow> (string \<Rightarrow> call_env) \<Rightarrow> string \<Rightarrow> page list \<Rightarrow> downloader \<times> world
     \<Rightarrow> ((batchResult \<times> dl_stats) \<times> downloader \<times> world) option" where
  "downloadAllImages P env baseUrl pages dw =
     (let uniqueImageUrls = collectUrls pages
      in case downloadLoop P env baseUrl uniqueImageUrls
                (\<lparr> success = [], failedList = [], duplicatesList = [] \<rparr>, dw) of
           None \<Rightarrow> None
         | Some finished \<Rightarrow> Some ((fst finished, stats (fst (snd finished))), snd finished))"

subsection \<open>updatePagesWithLocalPaths and generateManifest\<close>

text \<open>\<^verbatim>\<open>this.hashToPath.get(this.urlToHash.get(u))\<close>; the lookup of an absent hash is absent.\<close>

definition pathOfHash :: "downloader \<Rightarrow> string option \<Rightarrow> string option" where
  "pathOfHash d h = (case h of None \<Rightarrow> None | Some hh \<Rightarrow> map_of (hashToPath d) hh)"

definition updateImage :: "downloader \<Rightarrow> image \<Rightarrow> image" where
  "updateImage d img =
     (case map_of (urlToPath d) (src img) of
        None \<Rightarrow> img
      | Some p \<Rightarrow>
          img\<lparr> img_localPath := Some p,
               img_hash := map_of (urlToHash d) (src img),
               img_duplicate := Some (pathOfHash d (map_of (urlToHash d) (src img)) \<noteq> Some p) \<rparr>)"

definition updatePagesWithLocalPaths :: "downloader \<Rightarrow> page list \<Rightarrow> page list" where
  "updatePagesWithLocalPaths d pages =
     map (\<lambda>pg. case images pg of
                 None \<Rightarrow> pg
               | Some imgs \<Rightarrow> pg\<lparr> images := Some (map (updateImage d) imgs) \<rparr>) pages"

text \<open>
  The manifest generateManifest returns. The time stamp and the size in megabytes are left
  out, and so is the write of the serialised manifest to \<open>outputPath\<close>.
\<close>

record manifestImage =
  m_url :: string
  m_localPath :: string
  m_hash :: "string option"
  m_duplicate :: bool
  m_originalFile :: "string option"
  m_fileName :: string
  m_directory :: string

record manifestHash =
  h_hash :: string
  h_localPath :: string
  h_fileName :: string

record manifestStats =
  total_urls :: nat
  unique_files :: nat
  stat_duplicates :: nat
  stat_failed :: nat
  total_size_bytes :: nat

record manifest =
  base_output_dir :: string
  statistics :: manifestStats
  manifest_images :: "manifestImage list"
  hash_map :: "manifestHash list"

definition manifestEntry :: "platform \<Rightarrow> downloader \<Rightarrow> string \<times> string \<Rightarrow> manifestImage" where
  "manifestEntry P d entry =
     (let u = fst entry; localPath = snd entry;
          h = map_of (urlToHash d) u;
          isDuplicate = (pathOfHash d h \<noteq> Some localPath)
      in \<lparr> m_url = u, m_localPath = localPath, m_hash = h, m_duplicate = isDuplicate,
           m_originalFile = (if isDuplicate then pathOfHash d h else None),
           m_fileName = pathBasename P localPath,
           m_directory = pathDirname P localPath \<rparr>)"

definition generateManifest :: "platform \<Rightarrow> downloader \<Rightarrow> manifest" where
  "generateManifest P d =
     \<lparr> base_output_dir = baseOutputDir d,
       statistics = \<lparr> total_urls = total (stats d), unique_files = downloaded (stats d),
                      stat_duplicates = duplicates (stats d), stat_failed = failed (stats d),
                      total_size_bytes = totalSize (stats d) \<rparr>,
       manifest_images = map (manifestEntry P d) (urlToPath d),
       hash_map = map (\<lambda>entry. \<lparr> h_hash = fst entry, h_localPath = snd entry,
                                 h_fileName = pathBasename P (snd entry) \<rparr>) (hashToPath d) \<rparr>"

section \<open>Specification predicates for the downloader\<close>

text \<open>
  What one call of downloadImage can do to the three maps and to the files written: nothing,
  or map a new URL to a path that is already registered for its hash, or write a file and
  register a new hash and a new URL.
\<close>

definition registryUnchanged :: "downloader \<times> world \<Rightarrow> downloader \<times> world \<Rightarrow> bool" where
  "registryUnchanged dw dw' =
     (hashToPath (fst dw') = hashToPath (fst dw) \<and> urlToHash (fst dw') = urlToHash (fst dw)
      \<and> urlToPath (fst dw') = urlToPath (fst dw) \<and> files (snd dw') = files (snd dw))"

definition registeredDuplicate :: "string \<Rightarrow> downloader \<times> world \<Rightarrow> downloader \<times> world \<Rightarrow> bool" where
  "registeredDuplicate u dw dw' =
     (\<exists>h p. map_of (urlToPath (fst dw)) u = None \<and> map_of (hashToPath (fst dw)) h = Some p
        \<and> hashToPath (fst dw') = hashToPath (fst dw)
        \<and> urlToHash (fst dw') = AList.update u h (urlToHash (fst dw))
        \<and> urlToPath (fst dw') = AList.update u p (urlToPath (fst dw))
        \<and> files (snd dw') = files (snd dw))"

definition registeredNew :: "platform \<Rightarrow> string \<Rightarrow> downloader \<times> world \<Rightarrow> downloader \<times> world \<Rightarrow> bool" where
  "registeredNew P u dw dw' =
     (\<exists>content lp. map_of (urlToPath (fst dw)) u = None
        \<and> map_of (hashToPath (fst dw)) (md5hex P content) = None
        \<and> hashToPath (fst dw') = AList.update (md5hex P content) lp (hashToPath (fst dw))
        \<and> urlToHash (fst dw') = AList.update u (md5hex P content) (urlToHash (fst dw))
        \<and> urlToPath (fst dw') = AList.update u lp (urlToPath (fst dw))
        \<and> files (snd dw') = files (snd dw) @ [(lp, content)])"

text \<open>
  The registry invariant: the hash map lists, in order, the hash and the path of every file
  written (so each registered hash stands for exactly one write); the keys of the hash map
  and of the URL map are distinct; and every URL with a path has a hash whose registered
  path is that path.
\<close>

definition registryInv :: "platform \<Rightarrow> downloader \<times> world \<Rightarrow> bool" where
  "registryInv P dw =
     (hashToPath (fst dw) = map (\<lambda>f. (md5hex P (snd f), fst f)) (files (snd dw))
      \<and> distinct (map fst (hashToPath (fst dw)))
      \<and> distinct (map fst (urlToPath (fst dw)))
      \<and> (\<forall>u p. map_of (urlToPath (fst dw)) u = Some p \<longrightarrow>
             (\<exists>h. map_of (urlToHash (fst dw)) u = Some h \<and> map_of (hashToPath (fst dw)) h = Some p)))"

text \<open>
  The request is answered with status 200, the declared length passes the check, the body
  \<open>body\<close> arrives within the maximum size and the stream ends normally.
\<close>

fun deliversBody :: "int \<Rightarrow> net_outcome \<Rightarrow> buffer \<Rightarrow> bool" where
  "deliversBody maxS (Response statusCode contentLength chunks ending) body =
     (statusCode = 200 \<and> ending = StreamEnd \<and> declaredExcess maxS contentLength = None
      \<and> receiveChunks maxS chunks [] 0 False = (body, length body, False))"
| "deliversBody maxS RequestThrows body = False"
| "deliversBody maxS RequestError body = False"
| "deliversBody maxS RequestTimeout body = False"

text \<open>The URLs a batch result covers, and the image URLs a page refers to.\<close>

definition coveredUrls :: "batchResult \<Rightarrow> string list" where
  "coveredUrls res = map r_url (success res) @ map r_url (duplicatesList res) @ map fst (failedList res)"

definition pageUrls :: "page \<Rightarrow> string set" where
  "pageUrls pg = (case images pg of None \<Rightarrow> {} | Some imgs \<Rightarrow> {s. s \<noteq> [] \<and> s \<in> src ` set imgs})"

section \<open>Concrete inputs used in the examples\<close>

text \<open>
  A simple \<^verbatim>\<open>URL\<close> parser for the plain URLs of the examples, \<^verbatim>\<open>scheme://host/path\<close>: the
  host runs to the first slash after \<^verbatim>\<open>://\<close>, the pathname from there to \<^verbatim>\<open>?\<close> or \<^verbatim>\<open>#\<close>.
\<close>

fun afterScheme :: "string \<Rightarrow> string option" where
  "afterScheme [] = None"
| "afterScheme (c # cs) = (if startsWith (c # cs) ''://'' then Some (drop 3 (c # cs)) else afterScheme cs)"

definition plainParseUrl :: "string \<Rightarrow> (string \<times> string) option" where
  "plainParseUrl s =
     (case afterScheme s of
        None \<Rightarrow> None
      | Some rest \<Rightarrow>
          (let host = takeWhile (\<lambda>c. c \<noteq> CHR ''/'') rest;
               path = takeWhile (\<lambda>c. c \<noteq> CHR ''?'' \<and> c \<noteq> CHR ''#'') (dropWhile (\<lambda>c. c \<noteq> CHR ''/'') rest)
           in if host = [] then None else Some (host, if path = [] then ''/'' else path)))"

definition plainPlatform :: platform where
  "plainPlatform =
     \<lparr> parseUrl = plainParseUrl,
       pathJoin = join_with ''/'',
       pathDirname = (\<lambda>p. rev (drop 1 (dropWhile (\<lambda>c. c \<noteq> CHR ''/'') (rev p)))),
       pathBasename = (\<lambda>p. rev (takeWhile (\<lambda>c. c \<noteq> CHR ''/'') (rev p))),
       md5hex = map (\<lambda>b. char_of (unat b)) \<rparr>"

text \<open>Example crawls: URLs, configurations and operation sequences.\<close>

definition ex_root :: string where "ex_root = ''https://example.com''"
definition ex_en :: string where "ex_en = ''https://example.com/en''"
definition ex_a :: string where "ex_a = ''https://example.com/en/products/a''"
definition ex_b :: string where "ex_b = ''https://example.com/en/products/b''"
definition ex_c :: string where "ex_c = ''https://example.com/en/products/c''"
definition ex_impressum :: string where "ex_impressum = ''https://example.com/impressum''"
definition ex_Impressum :: string where "ex_Impressum = ''https://example.com/Impressum''"

text \<open>A keyword configured with a capital letter.\<close>

definition cfg_capital :: config where
  "cfg_capital = default_config\<lparr> legalKeywords := [''Impressum''] \<rparr>"

text \<open>Four levels, two pages per category at level 3, one at level 4.\<close>

definition cfg4 :: config where
  "cfg4 = default_config\<lparr> maxLevel := 4, levelLimits := [1 \<mapsto> - 1, 2 \<mapsto> - 1, 3 \<mapsto> 2, 4 \<mapsto> 1] \<rparr>"

text \<open>Two levels, limit 1 at the deepest.\<close>

definition cfg2 :: config where
  "cfg2 = default_config\<lparr> maxLevel := 2, levelLimits := [1 \<mapsto> - 1, 2 \<mapsto> 1] \<rparr>"

text \<open>
  The root is visited, then the page \<open>/en\<close> found on it, then two product pages of one
  category are found on \<open>/en\<close>.
\<close>

definition ops4 :: "crawl_op list" where
  "ops4 = [Dequeue, AdmitLink ex_en ex_root True, Dequeue,
           AdmitLink ex_a ex_en True, AdmitLink ex_b ex_en True]"

text \<open>The root is visited; it links to the imprint and to two product pages of one category.\<close>

definition ops2 :: "crawl_op list" where
  "ops2 = [Dequeue, AdmitLink ex_impressum ex_root False,
           AdmitLink ex_a ex_root True, AdmitLink ex_b ex_root True]"

definition crawl4 :: scraper where
  "crawl4 = crawl_run plainPlatform (start_scraper cfg4 ex_root) ops4"

definition crawl2 :: scraper where
  "crawl2 = crawl_run plainPlatform (start_scraper cfg2 ex_root) ops2"

text \<open>A crawler in which a legal page and an ordinary page are registered.\<close>

definition crawler_ab :: crawler where
  "crawler_ab = snd (registerUrl (snd (registerUrl (new_crawler default_config) ex_impressum None)) ex_en None)"

text \<open>Two registrations with the default configuration: \<open>/en/products/a\<close>, then \<open>/en\<close>.\<close>

definition crawler_1 :: crawler where
  "crawler_1 = snd (registerUrl (new_crawler default_config) ex_a None)"

definition crawler_2 :: crawler where
  "crawler_2 = snd (registerUrl crawler_1 ex_en None)"

text \<open>
  Example downloads: two image URLs that deliver the same four bytes, a third that is
  answered with 404 (and a declared length above the maximum), and what the environment
  does for each. The stand-in for the MD5 digest in the examples is the byte string itself.
\<close>

definition ex_img1 :: string where "ex_img1 = ''https://example.com/img/logo.png''"
definition ex_img2 :: string where "ex_img2 = ''https://cdn.example.com/assets/brand.png''"
definition ex_img3 :: string where "ex_img3 = ''https://example.com/img/missing.png''"
definition ex_bytes :: buffer where "ex_bytes = [137, 80, 78, 71]"

definition env_ok :: call_env where
  "env_ok = \<lparr> net = Response 200 (Some 4) [[137, 80], [78, 71]] StreamEnd, mkdirOk = True, writeOk = True \<rparr>"
definition env_404 :: call_env where
  "env_404 = \<lparr> net = Response 404 (Some 20000000) [] StreamEnd, mkdirOk = True, writeOk = True \<rparr>"
definition env_declared_big :: call_env where
  "env_declared_big = \<lparr> net = Response 200 (Some 20000000) [] StreamEnd, mkdirOk = True, writeOk = True \<rparr>"

definition env_undeclared :: call_env where
  "env_undeclared = \<lparr> net = Response 200 None [[137, 80], [78, 71]] StreamEnd, mkdirOk = True, writeOk = True \<rparr>"

definition default_dl :: downloader where
  "default_dl = new_downloader \<lparr> outputDir = None, cfgMaxSize = None, cfgTimeout = None \<rparr>"
definition small_dl :: downloader where
  "small_dl = new_downloader \<lparr> outputDir = None, cfgMaxSize = Some 3, cfgTimeout = None \<rparr>"

text \<open>The first image is downloaded, then the second.\<close>

definition dup_job1 :: "downloader \<times> world" where
  "dup_job1 = snd (downloadImage plainPlatform env_ok ex_img1 ex_root (default_dl, new_world))"
definition dup_job :: "downloader \<times> world" where
  "dup_job = snd (downloadImage plainPlatform env_ok ex_img2 ex_root dup_job1)"

text \<open>The first image is downloaded, then the third is answered with 404.\<close>

definition cache_job :: "downloader \<times> world" where
  "cache_job = snd (downloadImage plainPlatform env_404 ex_img3 ex_root dup_job1)"

text \<open>Three pages: the second repeats an image of the first and has an image without source.\<close>

definition ex_pages :: "page list" where
  "ex_pages =
     [\<lparr> page_url = ex_root, images = Some
          [\<lparr> src = ex_img1, alt = ''logo'', img_localPath = None, img_hash = None, img_duplicate = None \<rparr>,
           \<lparr> src = ex_img2, alt = ''brand'', img_localPath = None, img_hash = None, img_duplicate = None \<rparr>] \<rparr>,
      \<lparr> page_url = ex_en, images = Some
          [\<lparr> src = ex_img1, alt = ''logo'', img_localPath = None, img_hash = None, img_duplicate = None \<rparr>,
           \<lparr> src = [], alt = ''no source'', img_localPath = None, img_hash = None, img_duplicate = None \<rparr>,
           \<lparr> src = ex_img3, alt = ''missing'', img_localPath = None, img_hash = None, img_duplicate = None \<rparr>] \<rparr>,
      \<lparr> page_url = ex_a, images = None \<rparr>]"

definition ex_env :: "string \<Rightarrow> call_env" where
  "ex_env u = (if u = ex_img3 then env_404 else env_ok)"

definition batch :: "(batchResult \<times> dl_stats) \<times> downloader \<times> world" where
  "batch = the (downloadAllImages plainPlatform ex_env ex_root ex_pages (default_dl, new_world))"

text \<open>
  A response whose connection is closed after the first chunk, and an environment in which
  the second image is answered that way.
\<close>

definition env_aborted :: call_env where
  "env_aborted = \<lparr> net = Response 200 (Some 4) [[137, 80]] StreamAborted, mkdirOk = True, writeOk = True \<rparr>"

definition ex_env_aborted :: "string \<Rightarrow> call_env" where
  "ex_env_aborted u = (if u = ex_img2 then env_aborted else env_ok)"

text \<open>
  A download of four bytes in two chunks, without declared length, against a maximum of
  three bytes.
\<close>

definition small_job :: "(failure + downloadResult) option \<times> downloader \<times> world" where
  "small_job = downloadImage plainPlatform env_undeclared ex_img1 ex_root (small_dl, new_world)"

section \<open>Properties of the level classifier\<close>

lemma startsWith_append: "startsWith (k @ s) k"
  by (induction k) auto

lemma includes_str_iff: "includes_str s k \<longleftrightarrow> (\<exists>pre post. s = pre @ k @ post)"
proof (induction s)
  case Nil
  then show ?case by auto
next
  case (Cons c cs)
  have sw: "startsWith xs k \<longleftrightarrow> (\<exists>post. xs = k @ post)" for xs
    by (induction xs k rule: startsWith.induct) auto
  show ?case
  proof
    assume "includes_str (c # cs) k"
    then consider "startsWith (c # cs) k" | "includes_str cs k" by auto
    then show "\<exists>pre post. c # cs = pre @ k @ post"
    proof cases
      case 1
      then obtain post where "c # cs = k @ post" using sw by blast
      then have "c # cs = [] @ k @ post" by simp
      then show ?thesis by blast
    next
      case 2
      then obtain pre post where "cs = pre @ k @ post" using Cons.IH by blast
      then have "c # cs = (c # pre) @ k @ post" by simp
      then show ?thesis by blast
    qed
  next
    assume "\<exists>pre post. c # cs = pre @ k @ post"
    then obtain pre post where eq: "c # cs = pre @ k @ post" by blast
    show "includes_str (c # cs) k"
    proof (cases pre)
      case Nil
      then have "startsWith (c # cs) k" using eq sw by auto
      then show ?thesis by simp
    next
      case (Cons p ps)
      then have "cs = ps @ k @ post" using eq by simp
      then have "includes_str cs k" using Cons.IH by blast
      then show ?thesis by simp
    qed
  qed
qed

lemma isLegalPage_level0: "isLegalPage c u \<Longrightarrow> determineLevel c u parent = 0"
  by (simp add: determineLevel_def)

text \<open>
  A keyword that is configured in lower case classifies every URL containing it in any
  letter case as a legal page, whatever the parent.
\<close>

lemma toLowerCase_idem: "toLowerCase (toLowerCase s) = toLowerCase s"
proof -
  have "lowerChar (lowerChar c) = lowerChar c" for c
    by (auto simp: lowerChar_def split: option.splits if_splits)
  then show ?thesis by (simp add: toLowerCase_def)
qed

lemma lowercase_keyword_level0:
  assumes "k \<in> set (legalKeywords (cfg c))" and "toLowerCase k = k"
    and "includes_str (toLowerCase u) (toLowerCase k)"
  shows "determineLevel c u parent = 0"
proof -
  have "isLegalPage c u"
    using assms by (auto simp: isLegalPage_def list_ex_iff)
  then show ?thesis by (rule isLegalPage_level0)
qed

text \<open>
  C6. A URL that contains a configured keyword as a case-insensitive substring is not
  always classified as level 0: isLegalPage lower-cases the URL but not the keyword. With
  the keyword \<^verbatim>\<open>Impressum\<close> configured, the URL \<^verbatim>\<open>https://example.com/Impressum\<close> contains the
  keyword (even literally), is not a legal page, and gets level 1 without a parent and the
  parent's level plus one with a parent.
\<close>

theorem determineLevel_capital_keyword:
  "includes_str ex_Impressum ''Impressum''
   \<and> includes_str (toLowerCase ex_Impressum) (toLowerCase ''Impressum'')
   \<and> \<not> isLegalPage (new_crawler cfg_capital) ex_Impressum
   \<and> determineLevel (new_crawler cfg_capital) ex_Impressum None = 1
   \<and> determineLevel (snd (registerUrl (new_crawler cfg_capital) ex_root None)) ex_Impressum (Some ex_root) = 2"
  by code_simp

section \<open>Properties of registerUrl\<close>

lemma registerUrl_fst: "fst (registerUrl c u p) = determineLevel c u p"
  by (simp add: registerUrl_def Let_def)

lemma registerUrl_urlLevels:
  "urlLevels (snd (registerUrl c u p)) = (urlLevels c)(u \<mapsto> determineLevel c u p)"
  by (simp add: registerUrl_def Let_def)

lemma registerUrl_levelCounts:
  "levelCounts (snd (registerUrl c u p)) =
     (levelCounts c)(determineLevel c u p \<mapsto> levelCount c (determineLevel c u p) + 1)"
  by (simp add: registerUrl_def Let_def levelCount_def)

lemma isLegalPage_cfg: "cfg c' = cfg c \<Longrightarrow> isLegalPage c' u = isLegalPage c u"
  by (simp add: isLegalPage_def)

lemma registerUrl_cfg: "cfg (snd (registerUrl c u p)) = cfg c"
  by (simp add: registerUrl_def Let_def)

lemma registerUrl_categoryPages: "categoryPages (snd (registerUrl c u p)) = categoryPages c"
  by (simp add: registerUrl_def Let_def)

lemma categoryBound_new: "categoryBound (new_crawler c)"
  by (simp add: categoryBound_def new_crawler_def pagesInCategory_def)

lemma categoryBound_registerUrl:
  "categoryBound c \<Longrightarrow> categoryBound (snd (registerUrl c u p))"
  by (simp add: categoryBound_def pagesInCategory_def level3Limit_def
      registerUrl_cfg registerUrl_categoryPages)

lemma categoryBound_guarded:
  assumes "categoryBound c"
    and "shouldCrawlLevel3 P c u = Some True"
    and "registerLevel3Page P c u = Some c'"
  shows "categoryBound c' \<and> cfg c' = cfg c"
proof -
  obtain category where cat: "getCategory P u = Some category"
    using assms(2) by (auto simp: shouldCrawlLevel3_def split: option.splits)
  have room: "int (length (pagesInCategory c category)) < level3Limit c"
    using assms(2) cat by (simp add: shouldCrawlLevel3_def)
  have c': "c' = c\<lparr> categoryPages := (categoryPages c)(category \<mapsto> pagesInCategory c category @ [u]) \<rparr>"
    using assms(3) cat by (simp add: registerLevel3Page_def)
  have "int (length (pagesInCategory c' k)) \<le> max 0 (level3Limit c')" for k
  proof (cases "k = category")
    case True
    then show ?thesis using room by (simp add: c' pagesInCategory_def level3Limit_def)
  next
    case False
    then show ?thesis
      using assms(1) by (simp add: c' categoryBound_def pagesInCategory_def level3Limit_def)
  qed
  then show ?thesis by (simp add: categoryBound_def c')
qed

lemma admitLink_cases:
  assumes "admitLink P s a p nav = Some s'"
  shows "navCrawler s' = navCrawler s
       \<or> (shouldCrawlLevel3 P (navCrawler s) a = Some True
          \<and> registerLevel3Page P (navCrawler s) a = Some (navCrawler s'))"
proof (cases "a \<notin> visitedUrls s \<and> shouldCrawl (navCrawler s) a (Some p)")
  case False
  then have "admitLink P s a p nav = Some s" unfolding admitLink_def by (rule if_not_P)
  then show ?thesis using assms by simp
next
  case guard: True
  show ?thesis
  proof (cases "determineLevel (navCrawler s) a (Some p) = 3")
    case False
    then obtain item where "admitLink P s a p nav = Some (s\<lparr> pendingUrls := pendingUrls s @ [item] \<rparr>)"
      using guard by (simp add: admitLink_def Let_def)
    then show ?thesis using assms by auto
  next
    case lvl3: True
    show ?thesis
    proof (cases "shouldCrawlLevel3 P (navCrawler s) a")
      case None
      then show ?thesis using assms guard lvl3 by (simp add: admitLink_def Let_def)
    next
      case (Some b)
      note should = this
      show ?thesis
      proof (cases b)
        case False
        then have "admitLink P s a p nav = Some s"
          using guard lvl3 should by (simp add: admitLink_def Let_def)
        then show ?thesis using assms by simp
      next
        case b: True
        show ?thesis
        proof (cases "registerLevel3Page P (navCrawler s) a")
          case None
          then show ?thesis using assms guard lvl3 should b by (simp add: admitLink_def Let_def)
        next
          case (Some c')
          then obtain item where
            "admitLink P s a p nav = Some (s\<lparr> pendingUrls := pendingUrls s @ [item], navCrawler := c' \<rparr>)"
            using guard lvl3 should b by (simp add: admitLink_def Let_def)
          then have "navCrawler s' = c'" using assms by auto
          then show ?thesis using Some should b by simp
        qed
      qed
    qed
  qed
qed

lemma categoryBound_admitLink:
  assumes "categoryBound (navCrawler s)" and "admitLink P s a p nav = Some s'"
  shows "categoryBound (navCrawler s') \<and> cfg (navCrawler s') = cfg (navCrawler s)"
  using admitLink_cases[OF assms(2)] assms(1) categoryBound_guarded[of "navCrawler s" P a "navCrawler s'"]
  by auto

lemma categoryBound_dequeueNext:
  assumes "categoryBound (navCrawler s)"
  shows "categoryBound (navCrawler (dequeueNext s)) \<and> cfg (navCrawler (dequeueNext s)) = cfg (navCrawler s)"
  using assms
  by (auto simp: dequeueNext_def categoryBound_registerUrl registerUrl_cfg split: list.splits)

lemma categoryBound_step:
  assumes "categoryBound (navCrawler s)"
  shows "categoryBound (navCrawler (crawl_step P s op)) \<and> cfg (navCrawler (crawl_step P s op)) = cfg (navCrawler s)"
proof (cases op)
  case (AdmitLink a p nav)
  show ?thesis
  proof (cases "admitLink P s a p nav")
    case None
    then show ?thesis using assms AdmitLink by simp
  next
    case (Some s')
    then show ?thesis using categoryBound_admitLink[OF assms Some] AdmitLink by simp
  qed
next
  case Dequeue
  then show ?thesis using assms categoryBound_dequeueNext by simp
next
  case (RegisterUrl u parent)
  then show ?thesis using assms by (simp add: categoryBound_registerUrl registerUrl_cfg)
next
  case (GuardedLevel3 u)
  show ?thesis
  proof (cases "shouldCrawlLevel3 P (navCrawler s) u = Some True")
    case False
    then have "crawl_step P s op = s"
      unfolding GuardedLevel3 by (simp split: option.splits bool.splits)
    then show ?thesis using assms by simp
  next
    case True
    show ?thesis
    proof (cases "registerLevel3Page P (navCrawler s) u")
      case None
      then show ?thesis using assms True GuardedLevel3 by simp
    next
      case (Some c')
      then show ?thesis using categoryBound_guarded[OF assms True Some] True GuardedLevel3 by simp
    qed
  qed
qed

lemma categoryBound_run:
  "categoryBound (navCrawler s) \<Longrightarrow>
     categoryBound (navCrawler (crawl_run P s ops)) \<and> cfg (navCrawler (crawl_run P s ops)) = cfg (navCrawler s)"
  unfolding crawl_run_def
proof (induction ops arbitrary: s)
  case Nil
  then show ?case by simp
next
  case (Cons op ops)
  from categoryBound_step[OF Cons.prems, of P op]
  have "categoryBound (navCrawler (crawl_step P s op))"
    and c: "cfg (navCrawler (crawl_step P s op)) = cfg (navCrawler s)" by auto
  from Cons.IH[OF this(1)] c show ?case by simp
qed

text \<open>
  C2 (as the code has it). registerUrl has no check for a URL that is already registered:
  a second call for \<open>u\<close>, in any later state \<open>c2\<close> of the same crawler and with any parent
  \<open>p2\<close>, returns the level computed from \<open>p2\<close>, stores it as the level of \<open>u\<close> and adds one
  to the counter of that level; the levels of other URLs and the other counters stay as
  they were. The level returned is the one of the first registration when \<open>u\<close> is a legal
  page, and for an ordinary page with non-empty parents exactly when the stored level of
  the second parent equals the level the first parent had.
\<close>

theorem registerUrl_again:
  assumes later: "cfg c2 = cfg c"
  shows "fst (registerUrl c2 u p2) = determineLevel c2 u p2
       \<and> urlLevels (snd (registerUrl c2 u p2)) u = Some (determineLevel c2 u p2)
       \<and> levelCounts (snd (registerUrl c2 u p2)) (determineLevel c2 u p2)
           = Some (levelCount c2 (determineLevel c2 u p2) + 1)
       \<and> (\<forall>l. l \<noteq> determineLevel c2 u p2 \<longrightarrow>
             levelCounts (snd (registerUrl c2 u p2)) l = levelCounts c2 l)
       \<and> (\<forall>v. v \<noteq> u \<longrightarrow> urlLevels (snd (registerUrl c2 u p2)) v = urlLevels c2 v)
       \<and> (isLegalPage c u \<longrightarrow> fst (registerUrl c2 u p2) = fst (registerUrl c u p1))
       \<and> (\<forall>q1 q2. \<not> isLegalPage c u \<and> p1 = Some q1 \<and> p2 = Some q2 \<and> q1 \<noteq> [] \<and> q2 \<noteq> [] \<longrightarrow>
             (fst (registerUrl c2 u p2) = fst (registerUrl c u p1)
                \<longleftrightarrow> parentLevel c2 q2 = parentLevel c q1))"
proof -
  have legal: "isLegalPage c2 u = isLegalPage c u"
    using later by (rule isLegalPage_cfg)
  have stable: "isLegalPage c u \<longrightarrow> determineLevel c2 u p2 = determineLevel c u p1"
    using legal by (simp add: determineLevel_def)
  have parents: "\<not> isLegalPage c u \<and> p1 = Some q1 \<and> p2 = Some q2 \<and> q1 \<noteq> [] \<and> q2 \<noteq> [] \<longrightarrow>
      (determineLevel c2 u p2 = determineLevel c u p1 \<longleftrightarrow> parentLevel c2 q2 = parentLevel c q1)"
    for q1 q2
    using legal by (auto simp: determineLevel_def)
  show ?thesis
    using stable parents
    by (simp add: registerUrl_fst registerUrl_urlLevels registerUrl_levelCounts)
qed

text \<open>
  The theorem at a legal page: the imprint is registered without a parent, a second page
  is registered, and the imprint is registered again with that page as its parent. The
  level is 0 both times, and the counter of level 0 goes from 1 to 2.
\<close>

theorem registerUrl_again_witness:
  "cfg crawler_ab = cfg (new_crawler default_config)
   \<and> isLegalPage (new_crawler default_config) ex_impressum
   \<and> fst (registerUrl (new_crawler default_config) ex_impressum None) = 0
   \<and> fst (registerUrl crawler_ab ex_impressum (Some ex_en)) = 0
   \<and> levelCount crawler_ab 0 = 1
   \<and> levelCounts (snd (registerUrl crawler_ab ex_impressum (Some ex_en))) 0 = Some 2"
proof -
  have c: "cfg crawler_ab = cfg (new_crawler default_config)"
    by (simp add: crawler_ab_def registerUrl_cfg)
  have legal: "isLegalPage (new_crawler default_config) ex_impressum"
    by code_simp
  have first: "fst (registerUrl (new_crawler default_config) ex_impressum None) = 0"
    using legal by (simp add: registerUrl_fst isLegalPage_level0)
  have count: "levelCount crawler_ab 0 = 1"
    by code_simp
  have "isLegalPage crawler_ab ex_impressum"
    using legal isLegalPage_cfg [OF c] by simp
  then have lvl: "determineLevel crawler_ab ex_impressum (Some ex_en) = 0"
    by (rule isLegalPage_level0)
  show ?thesis
    using registerUrl_again [OF c, of ex_impressum "Some ex_en" None] c legal first count lvl
    by simp
qed

text \<open>
  The claim as stated fails for an ordinary page: \<open>/en/products/a\<close> is registered without
  a parent at level 1, \<open>/en\<close> is registered at level 1, and a second registration of
  \<open>/en/products/a\<close> with parent \<open>/en\<close> returns 2, overwrites the stored level 1 by 2 and
  creates the counter of level 2.
\<close>

theorem registerUrl_not_idempotent:
  "fst (registerUrl (new_crawler default_config) ex_a None) = 1
   \<and> urlLevels crawler_2 ex_a = Some 1
   \<and> levelCounts crawler_2 2 = None
   \<and> fst (registerUrl crawler_2 ex_a (Some ex_en)) = 2
   \<and> urlLevels (snd (registerUrl crawler_2 ex_a (Some ex_en))) ex_a = Some 2
   \<and> levelCounts (snd (registerUrl crawler_2 ex_a (Some ex_en))) 2 = Some 1"
  by code_simp

section \<open>The category cap\<close>

lemma admitLink_shape:
  obtains (skip) "admitLink P s a p nav = None \<or> admitLink P s a p nav = Some s"
    | (push) item where "level item \<noteq> 3"
        "admitLink P s a p nav = Some (s\<lparr> pendingUrls := pendingUrls s @ [item] \<rparr>)"
    | (deep) item c' where "level item = 3" "url item = a"
        "registerLevel3Page P (navCrawler s) a = Some c'"
        "admitLink P s a p nav = Some (s\<lparr> pendingUrls := pendingUrls s @ [item], navCrawler := c' \<rparr>)"
proof (cases "a \<notin> visitedUrls s \<and> shouldCrawl (navCrawler s) a (Some p)")
  case False
  then have "admitLink P s a p nav = Some s" unfolding admitLink_def by (rule if_not_P)
  then show ?thesis using skip by simp
next
  case guard: True
  define item where "item = \<lparr> url = a, parentUrl = Some p,
      level = determineLevel (navCrawler s) a (Some p), isNavigation = nav \<rparr>"
  show ?thesis
  proof (cases "determineLevel (navCrawler s) a (Some p) = 3")
    case False
    then have "admitLink P s a p nav = Some (s\<lparr> pendingUrls := pendingUrls s @ [item] \<rparr>)"
      using guard by (simp add: admitLink_def Let_def item_def)
    moreover have "level item \<noteq> 3" using False by (simp add: item_def)
    ultimately show ?thesis using push by blast
  next
    case lvl3: True
    show ?thesis
    proof (cases "shouldCrawlLevel3 P (navCrawler s) a")
      case None
      then have "admitLink P s a p nav = None"
        using guard lvl3 by (simp add: admitLink_def Let_def)
      then show ?thesis using skip by simp
    next
      case (Some b)
      note should = this
      show ?thesis
      proof (cases b)
        case False
        then have "admitLink P s a p nav = Some s"
          using guard lvl3 should by (simp add: admitLink_def Let_def)
        then show ?thesis using skip by simp
      next
        case b: True
        show ?thesis
        proof (cases "registerLevel3Page P (navCrawler s) a")
          case None
          then have "admitLink P s a p nav = None"
            using guard lvl3 should b by (simp add: admitLink_def Let_def)
          then show ?thesis using skip by simp
        next
          case (Some c')
          then have "admitLink P s a p nav =
              Some (s\<lparr> pendingUrls := pendingUrls s @ [item], navCrawler := c' \<rparr>)"
            using guard lvl3 should b by (simp add: admitLink_def Let_def item_def)
          moreover have "level item = 3" "url item = a" using lvl3 by (simp_all add: item_def)
          ultimately show ?thesis using deep Some by blast
        qed
      qed
    qed
  qed
qed

lemma registerLevel3Page_bucket:
  assumes "registerLevel3Page P c a = Some c'"
  shows "\<exists>k. getCategory P a = Some k
           \<and> (\<forall>k'. pagesInCategory c' k' = (if k' = k then pagesInCategory c k @ [a] else pagesInCategory c k'))"
proof -
  obtain k where k: "getCategory P a = Some k"
    using assms by (auto simp: registerLevel3Page_def split: option.splits)
  then have "c' = c\<lparr> categoryPages := (categoryPages c)(k \<mapsto> pagesInCategory c k @ [a]) \<rparr>"
    using assms by (simp add: registerLevel3Page_def)
  then show ?thesis using k by (simp add: pagesInCategory_def)
qed

lemma admitted_step:
  "length (level3In P k (pushedBy P s op)) + length (pagesInCategory (navCrawler s) k)
     \<le> length (pagesInCategory (navCrawler (crawl_step P s op)) k)"
proof (cases op)
  case (AdmitLink a p nav)
  show ?thesis
  proof (cases rule: admitLink_shape[of P s a p nav])
    case skip
    then show ?thesis using AdmitLink by (auto simp: pushedBy_def level3In_def)
  next
    case (push item)
    then show ?thesis using AdmitLink by (simp add: pushedBy_def level3In_def)
  next
    case (deep item c')
    from registerLevel3Page_bucket[OF deep(3)] obtain k0 where
      k0: "getCategory P a = Some k0"
      and grow: "\<And>k'. pagesInCategory c' k' = (if k' = k0 then pagesInCategory (navCrawler s) k0 @ [a]
                    else pagesInCategory (navCrawler s) k')"
      by blast
    show ?thesis using AdmitLink deep k0 grow[of k]
      by (simp add: pushedBy_def level3In_def)
  qed
next
  case Dequeue
  then show ?thesis
    by (simp add: pushedBy_def level3In_def dequeueNext_def pagesInCategory_def
        registerUrl_categoryPages split: list.splits)
next
  case (RegisterUrl u parent)
  then show ?thesis
    by (simp add: pushedBy_def level3In_def pagesInCategory_def registerUrl_categoryPages)
next
  case (GuardedLevel3 u)
  show ?thesis
  proof (cases "shouldCrawlLevel3 P (navCrawler s) u = Some True")
    case False
    then have "crawl_step P s op = s"
      unfolding GuardedLevel3 by (simp split: option.splits bool.splits)
    then show ?thesis using GuardedLevel3 by (simp add: pushedBy_def level3In_def)
  next
    case True
    show ?thesis
    proof (cases "registerLevel3Page P (navCrawler s) u")
      case None
      then show ?thesis using True GuardedLevel3 by (simp add: pushedBy_def level3In_def)
    next
      case (Some c')
      from registerLevel3Page_bucket[OF Some] obtain k0 where
        grow: "\<And>k'. pagesInCategory c' k' = (if k' = k0 then pagesInCategory (navCrawler s) k0 @ [u]
                    else pagesInCategory (navCrawler s) k')"
        by blast
      show ?thesis using True GuardedLevel3 Some grow[of k]
        by (simp add: pushedBy_def level3In_def)
    qed
  qed
qed

lemma admitted_run:
  "length (level3In P k (admitted P s ops)) + length (pagesInCategory (navCrawler s) k)
     \<le> length (pagesInCategory (navCrawler (crawl_run P s ops)) k)"
proof (induction ops arbitrary: s)
  case Nil
  then show ?case by (simp add: crawl_run_def level3In_def)
next
  case (Cons op ops)
  have "length (level3In P k (admitted P s (op # ops)))
      = length (level3In P k (pushedBy P s op)) + length (level3In P k (admitted P (crawl_step P s op) ops))"
    by (simp add: level3In_def)
  then show ?case
    using admitted_step[of P k s op] Cons.IH[of "crawl_step P s op"]
    by (simp add: crawl_run_def)
qed

lemma full_category_not_admitted:
  assumes "determineLevel (navCrawler s) a (Some p) = 3"
    and "getCategory P a = Some k"
    and "level3Limit (navCrawler s) \<le> int (length (pagesInCategory (navCrawler s) k))"
  shows "admitLink P s a p nav = Some s"
proof -
  have "shouldCrawlLevel3 P (navCrawler s) a = Some False"
    using assms(2,3) by (simp add: shouldCrawlLevel3_def)
  then show ?thesis using assms(1) by (simp add: admitLink_def Let_def)
qed

text \<open>
  C5. The cap of the crawler is tied to level 3 and to \<^verbatim>\<open>levelLimits[3] || 1\<close>, not to
  maxLevel. During any sequence of operations of a crawl (link admissions as in scrapePage,
  dequeues, and direct calls of registerUrl and of registerLevel3Page behind
  shouldCrawlLevel3), starting from a new scraper: the work items of level 3 that are
  pushed to the pending list for one category are at most \<^verbatim>\<open>levelLimits[3] || 1\<close> (none when
  that limit is negative); every category bucket holds at most that many URLs; the
  configuration is unchanged; and a link of level 3 into a category whose bucket has
  reached the limit is not pushed: its admission leaves the scraper as it was.
\<close>

theorem categoryPages_bounded:
  assumes run: "s = crawl_run P (start_scraper c baseUrl) ops"
  shows "int (length (level3In P category (admitted P (start_scraper c baseUrl) ops)))
           \<le> max 0 (level3Limit (navCrawler s))
       \<and> int (length (pagesInCategory (navCrawler s) category)) \<le> max 0 (level3Limit (navCrawler s))
       \<and> cfg (navCrawler s) = c
       \<and> (determineLevel (navCrawler s) a (Some p) = 3 \<and> getCategory P a = Some category
            \<and> level3Limit (navCrawler s) \<le> int (length (pagesInCategory (navCrawler s) category))
          \<longrightarrow> admitLink P s a p nav = Some s)"
proof -
  have start: "categoryBound (navCrawler (start_scraper c baseUrl))"
    by (simp add: start_scraper_def categoryBound_new)
  have c: "cfg (navCrawler (start_scraper c baseUrl)) = c"
    by (simp add: start_scraper_def new_crawler_def)
  have bucket: "int (length (pagesInCategory (navCrawler s) category)) \<le> max 0 (level3Limit (navCrawler s))"
    and cfg: "cfg (navCrawler s) = c"
    unfolding run using categoryBound_run [OF start, of P ops] c by (simp_all add: categoryBound_def)
  have "length (level3In P category (admitted P (start_scraper c baseUrl) ops))
      \<le> length (pagesInCategory (navCrawler s) category)"
    unfolding run using admitted_run[of P category "start_scraper c baseUrl" ops] by simp
  then have adm: "int (length (level3In P category (admitted P (start_scraper c baseUrl) ops)))
      \<le> max 0 (level3Limit (navCrawler s))"
    using bucket by simp
  show ?thesis using adm bucket cfg full_category_not_admitted[of s a p P category nav] by blast
qed

text \<open>
  The bound at work: with four levels and \<^verbatim>\<open>levelLimits[3] = 2\<close>, two links of level 3 into
  \<open>en/products\<close> are pushed and fill the bucket, and a third link into that category is
  not pushed.
\<close>

theorem categoryPages_bounded_witness:
  "map url (level3In plainPlatform ''en/products'' (admitted plainPlatform (start_scraper cfg4 ex_root) ops4))
     = [ex_a, ex_b]
   \<and> pagesInCategory (navCrawler crawl4) ''en/products'' = [ex_a, ex_b]
   \<and> level3Limit (navCrawler crawl4) = 2
   \<and> admitLink plainPlatform crawl4 ex_c ex_en True = Some crawl4"
proof -
  have adm: "map url (level3In plainPlatform ''en/products''
      (admitted plainPlatform (start_scraper cfg4 ex_root) ops4)) = [ex_a, ex_b]"
    by code_simp
  have bucket: "pagesInCategory (navCrawler crawl4) ''en/products'' = [ex_a, ex_b]"
    by code_simp
  have lvl: "determineLevel (navCrawler crawl4) ex_c (Some ex_en) = 3" by code_simp
  have cat: "getCategory plainPlatform ex_c = Some ''en/products''" by code_simp
  note inst = categoryPages_bounded [OF crawl4_def, of "''en/products''" ex_c ex_en True]
  have limit: "level3Limit (navCrawler crawl4) = 2"
    using inst by (simp add: level3Limit_def cfg4_def)
  have "admitLink plainPlatform crawl4 ex_c ex_en True = Some crawl4"
    using inst lvl cat limit bucket by simp
  then show ?thesis using adm bucket limit by simp
qed

text \<open>
  The claim as stated fails. With maxLevel 4 and limits 2 at level 3 and 1 at level 4, the
  bucket of \<open>en/products\<close> reaches two URLs, more than \<^verbatim>\<open>levelLimits[maxLevel] = 1\<close>. With
  maxLevel 2 and limit 1 at level 2 (the configuration of the specification's example),
  both product pages of category \<open>en/products\<close> are admitted at level 2, the deepest level,
  and no bucket is filled.
\<close>

theorem category_cap_not_maxLevel:
  "levelLimits cfg4 (maxLevel cfg4) = Some 1
   \<and> pagesInCategory (navCrawler crawl4) ''en/products'' = [ex_a, ex_b]
   \<and> levelLimits cfg2 (maxLevel cfg2) = Some 1
   \<and> map url (pendingUrls crawl2) = [ex_impressum, ex_a, ex_b]
   \<and> map level (pendingUrls crawl2) = [0, 2, 2]
   \<and> getCategory plainPlatform ex_a = Some ''en/products''
   \<and> getCategory plainPlatform ex_b = Some ''en/products''
   \<and> pagesInCategory (navCrawler crawl2) ''en/products'' = []"
  by code_simp

section \<open>The order of the pending URLs\<close>

text \<open>
  C1. prioritizeUrls does not put legal pages first. The sort level of an item is
  \<^verbatim>\<open>this.urlLevels.get(a.url) || 999\<close>, so a URL registered at level 0 and a URL that is not
  registered yet both sort as 999. In the first crawler the imprint is registered at level
  0 and \<open>/en\<close> at level 1: \<open>/en\<close> is put before the imprint. In the second (the crawl of the
  specification's example) nothing pending is registered: the two navigation links are put
  before the imprint, a footer link of level 0.
\<close>

theorem prioritizeUrls_legal_page_last:
  "urlLevels crawler_ab ex_impressum = Some 0
   \<and> urlLevels crawler_ab ex_en = Some 1
   \<and> map url (prioritizeUrls crawler_ab
        [\<lparr> url = ex_impressum, parentUrl = None, level = 0, isNavigation = True \<rparr>,
         \<lparr> url = ex_en, parentUrl = None, level = 1, isNavigation = True \<rparr>])
       = [ex_en, ex_impressum]
   \<and> map level (pendingUrls crawl2) = [0, 2, 2]
   \<and> map url (pendingUrls crawl2) = [ex_impressum, ex_a, ex_b]
   \<and> map url (prioritizeUrls (navCrawler crawl2) (pendingUrls crawl2))
       = [ex_a, ex_b, ex_impressum]"
  by code_simp

section \<open>One call of downloadImage\<close>

lemma inc_simps [simp]:
  "hashToPath (incTotal d) = hashToPath d" "urlToHash (incTotal d) = urlToHash d"
  "urlToPath (incTotal d) = urlToPath d" "maxSize (incTotal d) = maxSize d"
  "baseOutputDir (incTotal d) = baseOutputDir d"
  "hashToPath (incFailed d) = hashToPath d" "urlToHash (incFailed d) = urlToHash d"
  "urlToPath (incFailed d) = urlToPath d" "maxSize (incFailed d) = maxSize d"
  "baseOutputDir (incFailed d) = baseOutputDir d"
  "hashToPath (incDuplicates d) = hashToPath d" "urlToHash (incDuplicates d) = urlToHash d"
  "urlToPath (incDuplicates d) = urlToPath d" "maxSize (incDuplicates d) = maxSize d"
  "baseOutputDir (incDuplicates d) = baseOutputDir d"
  by (simp_all add: incTotal_def incFailed_def incDuplicates_def)

lemma inc_stats [simp]:
  "total (stats (incTotal d)) = total (stats d) + 1"
  "total (stats (incFailed d)) = total (stats d)"
  "total (stats (incDuplicates d)) = total (stats d)"
  by (simp_all add: incTotal_def incFailed_def incDuplicates_def)

lemma requestEvent_simps [simp]:
  "hashToPath (requestEvent ending d) = hashToPath d" "urlToHash (requestEvent ending d) = urlToHash d"
  "urlToPath (requestEvent ending d) = urlToPath d" "maxSize (requestEvent ending d) = maxSize d"
  "total (stats (requestEvent ending d)) = total (stats d)"
  by (cases ending; simp add: requestEvent_def)+

lemma settle_simps [simp]: "settle None r = Some r" "settle (Some first) r = Some first"
  by (simp_all add: settle_def)

lemma getLocalPathFromUrl_incTotal [simp]:
  "getLocalPathFromUrl P (incTotal d) u base = getLocalPathFromUrl P d u base"
  by (simp add: getLocalPathFromUrl_def fallbackPath_def split: option.splits prod.splits)

lemma onEnd_effect:
  assumes fresh: "map_of (urlToPath d) u = None"
  shows "registryUnchanged (d, w) (snd (onEnd P env u lp content n (d, w)))
       \<or> registeredDuplicate u (d, w) (snd (onEnd P env u lp content n (d, w)))
       \<or> registeredNew P u (d, w) (snd (onEnd P env u lp content n (d, w)))"
proof (cases "map_of (hashToPath d) (md5hex P content)")
  case (Some existingPath)
  then have "registeredDuplicate u (d, w) (snd (onEnd P env u lp content n (d, w)))"
    unfolding registeredDuplicate_def using fresh
    by (intro exI[of _ "md5hex P content"] exI[of _ existingPath]) (simp add: onEnd_def Let_def)
  then show ?thesis by simp
next
  case None
  show ?thesis
  proof (cases "writeOk env")
    case False
    then have "registryUnchanged (d, w) (snd (onEnd P env u lp content n (d, w)))"
      using None by (simp add: onEnd_def registryUnchanged_def Let_def)
    then show ?thesis by simp
  next
    case True
    then have "registeredNew P u (d, w) (snd (onEnd P env u lp content n (d, w)))"
      unfolding registeredNew_def using None fresh
      by (intro exI[of _ content] exI[of _ lp]) (simp add: onEnd_def Let_def)
    then show ?thesis by simp
  qed
qed

lemma onEnd_maxSize: "maxSize (fst (snd (onEnd P env u lp content n (d, w)))) = maxSize d"
  by (simp add: onEnd_def Let_def split: option.splits)

lemma onResponse_cases:
  obtains (early) e where "status \<noteq> 200 \<or> declaredExcess (maxSize d) cl \<noteq> None"
        "onResponse P env u lp status cl chunks ending (d, w) = (Some (Inl e), requestEvent ending d, w)"
    | (ended) content n rejected where
        "status = 200" "declaredExcess (maxSize d) cl = None" "ending = StreamEnd"
        "receiveChunks (maxSize d) chunks [] 0 False = (content, n, rejected)"
        "onResponse P env u lp status cl chunks ending (d, w) =
           (settle (if rejected then Some (Inl SizeExceeded) else None)
              (fst (onEnd P env u lp content n (d, w))),
            snd (onEnd P env u lp content n (d, w)))"
    | (failed) e where "ending = StreamError \<or> ending = StreamTimeout"
        "onResponse P env u lp status cl chunks ending (d, w) = (Some (Inl e), incFailed d, w)"
    | (aborted) r where "status = 200" "declaredExcess (maxSize d) cl = None" "ending = StreamAborted"
        "r = (if snd (snd (receiveChunks (maxSize d) chunks [] 0 False)) then Some (Inl SizeExceeded) else None)"
        "onResponse P env u lp status cl chunks ending (d, w) = (r, d, w)"
proof (cases "status \<noteq> 200")
  case True
  then have "onResponse P env u lp status cl chunks ending (d, w)
      = (Some (Inl (HttpError status)), requestEvent ending d, w)"
    by (simp add: onResponse_def Let_def)
  then show ?thesis using early True by blast
next
  case ok: False
  show ?thesis
  proof (cases "declaredExcess (maxSize d) cl")
    case (Some k)
    then have "onResponse P env u lp status cl chunks ending (d, w)
        = (Some (Inl (ImageTooLarge k)), requestEvent ending d, w)"
      using ok by (simp add: onResponse_def Let_def)
    then show ?thesis using early Some by blast
  next
    case None
    obtain content n rejected where
      got: "receiveChunks (maxSize d) chunks [] 0 False = (content, n, rejected)"
      by (cases "receiveChunks (maxSize d) chunks [] 0 False") auto
    have unfolded: "onResponse P env u lp status cl chunks ending (d, w) =
        (case ending of
           StreamEnd \<Rightarrow>
             (settle (if rejected then Some (Inl SizeExceeded) else None)
                (fst (onEnd P env u lp content n (d, w))),
              snd (onEnd P env u lp content n (d, w)))
         | StreamError \<Rightarrow>
             (settle (if rejected then Some (Inl SizeExceeded) else None) (Inl NetError), incFailed d, w)
         | StreamTimeout \<Rightarrow>
             (settle (if rejected then Some (Inl SizeExceeded) else None) (Inl DownloadTimeout),
              incFailed d, w)
         | StreamAborted \<Rightarrow> (if rejected then Some (Inl SizeExceeded) else None, d, w))"
      using ok None got by (cases ending; cases rejected; simp add: onResponse_def Let_def)
    show ?thesis
    proof (cases ending)
      case StreamEnd
      then show ?thesis using ended[of content n rejected] ok None got unfolded by simp
    next
      case StreamError
      then have "onResponse P env u lp status cl chunks ending (d, w)
          = (Some (Inl (if rejected then SizeExceeded else NetError)), incFailed d, w)"
        unfolding unfolded by simp
      then show ?thesis using failed StreamError by blast
    next
      case StreamTimeout
      then have "onResponse P env u lp status cl chunks ending (d, w)
          = (Some (Inl (if rejected then SizeExceeded else DownloadTimeout)), incFailed d, w)"
        unfolding unfolded by simp
      then show ?thesis using failed StreamTimeout by blast
    next
      case StreamAborted
      then show ?thesis
        using aborted[of "if rejected then Some (Inl SizeExceeded) else None"] ok None got unfolded
        by simp
    qed
  qed
qed

lemma onResponse_effect:
  assumes fresh: "map_of (urlToPath d) u = None"
  shows "registryUnchanged (d, w) (snd (onResponse P env u lp status cl chunks ending (d, w)))
       \<or> registeredDuplicate u (d, w) (snd (onResponse P env u lp status cl chunks ending (d, w)))
       \<or> registeredNew P u (d, w) (snd (onResponse P env u lp status cl chunks ending (d, w)))"
proof (cases rule: onResponse_cases[of status d cl P env u lp chunks ending w])
  case (early e)
  then show ?thesis by (simp add: registryUnchanged_def)
next
  case (ended content n rejected)
  then show ?thesis using onEnd_effect[OF fresh, of w P env lp content n] by simp
next
  case (failed e)
  then show ?thesis by (simp add: registryUnchanged_def)
next
  case (aborted r)
  then show ?thesis by (simp add: registryUnchanged_def)
qed

lemma onResponse_maxSize:
  "maxSize (fst (snd (onResponse P env u lp status cl chunks ending (d, w)))) = maxSize d"
  by (cases rule: onResponse_cases[of status d cl P env u lp chunks ending w])
     (simp_all add: onEnd_maxSize)

lemma downloadImage_cases:
  obtains (cached) p where "map_of (urlToPath d) u = Some p"
      "downloadImage P env u base (d, w) =
         (Some (Inr \<lparr> r_url = u, r_localPath = p, r_hash = map_of (urlToHash d) u,
                      r_duplicate = True, r_cached = True, r_duplicateOf = None, r_size = None \<rparr>),
          incDuplicates (incTotal d), w)"
    | (early) e w1 where "map_of (urlToPath d) u = None"
      "parseUrl P u = None
       \<or> (pathDirname P (getLocalPathFromUrl P d u base) \<notin> set (dirs w) \<and> \<not> mkdirOk env)
       \<or> net env = RequestThrows"
      "files w1 = files w" "requests w1 = requests w"
      "downloadImage P env u base (d, w) = (Some (Inl e), incFailed (incTotal d), w1)"
    | (unanswered) e d' w2 where "map_of (urlToPath d) u = None" "parseUrl P u \<noteq> None"
      "net env = RequestError \<or> net env = RequestTimeout"
      "files w2 = files w" "requests w2 = requests w @ [u]"
      "d' = incFailed (incTotal d) \<or> d' = incFailed (incFailed (incTotal d))"
      "downloadImage P env u base (d, w) = (Some (Inl e), d', w2)"
    | (answered) w2 status cl chunks ending where "map_of (urlToPath d) u = None" "parseUrl P u \<noteq> None"
      "net env = Response status cl chunks ending"
      "files w2 = files w" "requests w2 = requests w @ [u]"
      "downloadImage P env u base (d, w) =
         onResponse P env u (getLocalPathFromUrl P d u base) status cl chunks ending (incTotal d, w2)"
proof (cases "map_of (urlToPath d) u")
  case (Some p)
  then show ?thesis using cached[of p] by (simp add: downloadImage_def Let_def)
next
  case fresh: None
  show ?thesis
  proof (cases "parseUrl P u")
    case None
    then show ?thesis using early[of w InvalidUrl] fresh by (simp add: downloadImage_def Let_def)
  next
    case (Some parsed)
    define lp where "lp = getLocalPathFromUrl P d u base"
    show ?thesis
    proof (cases "pathDirname P lp \<notin> set (dirs w) \<and> \<not> mkdirOk env")
      case True
      then have "downloadImage P env u base (d, w) = (Some (Inl FsError), incFailed (incTotal d), w)"
        using fresh Some by (simp add: downloadImage_def Let_def lp_def)
      then show ?thesis using early[of w FsError] fresh True unfolding lp_def by simp
    next
      case False
      define w1 where "w1 = (if pathDirname P lp \<in> set (dirs w) then w else w\<lparr> dirs := dirs w @ [pathDirname P lp] \<rparr>)"
      define w2 where "w2 = w1\<lparr> requests := requests w1 @ [u] \<rparr>"
      have w2: "files w2 = files w" "requests w2 = requests w @ [u]"
        by (simp_all add: w2_def w1_def)
      have w1: "files w1 = files w" "requests w1 = requests w"
        by (simp_all add: w1_def)
      have unfolded: "downloadImage P env u base (d, w) =
          (case net env of
             RequestThrows \<Rightarrow> (Some (Inl InvalidProtocol), incFailed (incTotal d), w1)
           | RequestError \<Rightarrow> (Some (Inl NetError), incFailed (incTotal d), w2)
           | RequestTimeout \<Rightarrow> (Some (Inl DownloadTimeout), incFailed (incFailed (incTotal d)), w2)
           | Response status cl chunks ending \<Rightarrow>
               onResponse P env u lp status cl chunks ending (incTotal d, w2))"
        using fresh Some False
        by (cases "net env") (auto simp: downloadImage_def Let_def lp_def w2_def w1_def)
      show ?thesis
      proof (cases "net env")
        case RequestThrows
        then have "downloadImage P env u base (d, w) = (Some (Inl InvalidProtocol), incFailed (incTotal d), w1)"
          unfolding unfolded by simp
        then show ?thesis using early[of w1 InvalidProtocol] fresh RequestThrows w1 by simp
      next
        case RequestError
        then have "downloadImage P env u base (d, w) = (Some (Inl NetError), incFailed (incTotal d), w2)"
          unfolding unfolded by simp
        then show ?thesis
          using unanswered[of w2 "incFailed (incTotal d)" NetError] fresh Some RequestError w2 by simp
      next
        case RequestTimeout
        then have "downloadImage P env u base (d, w)
            = (Some (Inl DownloadTimeout), incFailed (incFailed (incTotal d)), w2)"
          unfolding unfolded by simp
        then show ?thesis
          using unanswered[of w2 "incFailed (incFailed (incTotal d))" DownloadTimeout]
            fresh Some RequestTimeout w2 by simp
      next
        case (Response status cl chunks ending)
        then have "downloadImage P env u base (d, w)
            = onResponse P env u lp status cl chunks ending (incTotal d, w2)"
          unfolding unfolded by simp
        then show ?thesis
          using answered[of status cl chunks ending w2] fresh Some Response w2 unfolding lp_def by simp
      qed
    qed
  qed
qed

lemma downloadImage_effect:
  "registryUnchanged (d, w) (snd (downloadImage P env u base (d, w)))
   \<or> registeredDuplicate u (d, w) (snd (downloadImage P env u base (d, w)))
   \<or> registeredNew P u (d, w) (snd (downloadImage P env u base (d, w)))"
proof (cases rule: downloadImage_cases[of d u P env base w])
  case (cached p)
  then show ?thesis by (simp add: registryUnchanged_def)
next
  case (early e w1)
  then show ?thesis by (simp add: registryUnchanged_def)
next
  case (unanswered e d' w2)
  from unanswered(6) have "hashToPath d' = hashToPath d \<and> urlToHash d' = urlToHash d
      \<and> urlToPath d' = urlToPath d" by auto
  then show ?thesis using unanswered(4,7) by (simp add: registryUnchanged_def)
next
  case (answered w2 status cl chunks ending)
  have fresh: "map_of (urlToPath (incTotal d)) u = None" using answered(1) by simp
  show ?thesis
    using onResponse_effect[OF fresh, of w2 P env "getLocalPathFromUrl P d u base" status cl chunks ending]
      answered(4)
    unfolding answered(6) registryUnchanged_def registeredDuplicate_def registeredNew_def
    by simp
qed

lemma downloadImage_maxSize:
  "maxSize (fst (snd (downloadImage P env u base (d, w)))) = maxSize d"
proof (cases rule: downloadImage_cases[of d u P env base w])
  case (cached p)
  then show ?thesis by simp
next
  case (early e w1)
  then show ?thesis by simp
next
  case (unanswered e d' w2)
  from unanswered(6) have "maxSize d' = maxSize d" by auto
  then show ?thesis using unanswered(7) by simp
next
  case (answered w2 status cl chunks ending)
  then show ?thesis by (simp add: onResponse_maxSize)
qed

section \<open>The registry invariant\<close>

lemma update_fresh: "map_of al k = None \<Longrightarrow> AList.update k v al = al @ [(k, v)]"
  by (induction al) (auto split: if_splits)

lemma registryInv_unchanged:
  assumes inv: "registryInv P dw" and same: "registryUnchanged dw dw'"
  shows "registryInv P dw'"
proof -
  have eqs: "hashToPath (fst dw') = hashToPath (fst dw)" "urlToHash (fst dw') = urlToHash (fst dw)"
    "urlToPath (fst dw') = urlToPath (fst dw)" "files (snd dw') = files (snd dw)"
    using same unfolding registryUnchanged_def by simp_all
  show ?thesis using inv unfolding registryInv_def eqs .
qed

lemma registryInv_duplicate:
  assumes inv: "registryInv P dw" and dup: "registeredDuplicate u dw dw'"
  shows "registryInv P dw'"
proof -
  obtain h p where hp: "map_of (hashToPath (fst dw)) h = Some p"
    and same: "hashToPath (fst dw') = hashToPath (fst dw)" "files (snd dw') = files (snd dw)"
    and uh: "urlToHash (fst dw') = AList.update u h (urlToHash (fst dw))"
    and up: "urlToPath (fst dw') = AList.update u p (urlToPath (fst dw))"
    using dup unfolding registeredDuplicate_def by blast
  have "\<exists>h'. map_of (urlToHash (fst dw')) v = Some h' \<and> map_of (hashToPath (fst dw')) h' = Some q"
    if "map_of (urlToPath (fst dw')) v = Some q" for v q
  proof (cases "v = u")
    case True
    then have "q = p" using that up by (simp add: update_conv')
    then show ?thesis using True uh hp same by (simp add: update_conv')
  next
    case False
    then have "map_of (urlToPath (fst dw)) v = Some q" using that up by (simp add: update_conv')
    then obtain h' where "map_of (urlToHash (fst dw)) v = Some h'" "map_of (hashToPath (fst dw)) h' = Some q"
      using inv unfolding registryInv_def by blast
    then show ?thesis using False uh same by (simp add: update_conv')
  qed
  then have c: "\<forall>v q. map_of (urlToPath (fst dw')) v = Some q \<longrightarrow>
      (\<exists>h'. map_of (urlToHash (fst dw')) v = Some h' \<and> map_of (hashToPath (fst dw')) h' = Some q)"
    by blast
  have a0: "hashToPath (fst dw) = map (\<lambda>f. (md5hex P (snd f), fst f)) (files (snd dw))"
    and b0: "distinct (map fst (hashToPath (fst dw)))"
    and u0: "distinct (map fst (urlToPath (fst dw)))"
    using inv unfolding registryInv_def by blast+
  have a: "hashToPath (fst dw') = map (\<lambda>f. (md5hex P (snd f), fst f)) (files (snd dw'))"
    unfolding same using a0 .
  have b: "distinct (map fst (hashToPath (fst dw')))"
    unfolding same using b0 .
  have ud: "distinct (map fst (urlToPath (fst dw')))"
    unfolding up using u0 by (rule distinct_update)
  show ?thesis unfolding registryInv_def using a b ud c by blast
qed

lemma registryInv_new:
  assumes inv: "registryInv P dw" and new: "registeredNew P u dw dw'"
  shows "registryInv P dw'"
proof -
  obtain content lp where unseen: "map_of (hashToPath (fst dw)) (md5hex P content) = None"
    and hp: "hashToPath (fst dw') = AList.update (md5hex P content) lp (hashToPath (fst dw))"
    and uh: "urlToHash (fst dw') = AList.update u (md5hex P content) (urlToHash (fst dw))"
    and up: "urlToPath (fst dw') = AList.update u lp (urlToPath (fst dw))"
    and fs: "files (snd dw') = files (snd dw) @ [(lp, content)]"
    using new unfolding registeredNew_def by blast
  have hp': "hashToPath (fst dw') = hashToPath (fst dw) @ [(md5hex P content, lp)]"
    using hp unseen by (simp add: update_fresh)
  have a0: "hashToPath (fst dw) = map (\<lambda>f. (md5hex P (snd f), fst f)) (files (snd dw))"
    using inv unfolding registryInv_def by blast
  have files: "hashToPath (fst dw') = map (\<lambda>f. (md5hex P (snd f), fst f)) (files (snd dw'))"
    unfolding hp' fs using a0 by simp
  have "distinct (map fst (hashToPath (fst dw)))" using inv unfolding registryInv_def by blast
  then have dist: "distinct (map fst (hashToPath (fst dw')))"
    unfolding hp by (rule distinct_update)
  have "\<exists>h'. map_of (urlToHash (fst dw')) v = Some h' \<and> map_of (hashToPath (fst dw')) h' = Some q"
    if "map_of (urlToPath (fst dw')) v = Some q" for v q
  proof (cases "v = u")
    case True
    then have "q = lp" using that up by (simp add: update_conv')
    then show ?thesis using True uh hp by (simp add: update_conv')
  next
    case False
    then have "map_of (urlToPath (fst dw)) v = Some q" using that up by (simp add: update_conv')
    then obtain h' where h': "map_of (urlToHash (fst dw)) v = Some h'" "map_of (hashToPath (fst dw)) h' = Some q"
      using inv unfolding registryInv_def by blast
    then have "h' \<noteq> md5hex P content" using unseen by auto
    then show ?thesis using False uh hp h' by (simp add: update_conv')
  qed
  then have c: "\<forall>v q. map_of (urlToPath (fst dw')) v = Some q \<longrightarrow>
      (\<exists>h'. map_of (urlToHash (fst dw')) v = Some h' \<and> map_of (hashToPath (fst dw')) h' = Some q)"
    by blast
  have "distinct (map fst (urlToPath (fst dw)))" using inv unfolding registryInv_def by blast
  then have ud: "distinct (map fst (urlToPath (fst dw')))"
    unfolding up by (rule distinct_update)
  show ?thesis unfolding registryInv_def using files dist ud c by blast
qed

lemma registryInv_downloadImage:
  assumes "registryInv P dw"
  shows "registryInv P (snd (downloadImage P env u base dw))"
proof -
  obtain d w where dw: "dw = (d, w)" by (cases dw)
  have inv: "registryInv P (d, w)" using assms dw by simp
  from downloadImage_effect[of d w P env u base] consider
      (same) "registryUnchanged (d, w) (snd (downloadImage P env u base (d, w)))"
    | (dup) "registeredDuplicate u (d, w) (snd (downloadImage P env u base (d, w)))"
    | (new) "registeredNew P u (d, w) (snd (downloadImage P env u base (d, w)))"
    by blast
  then have "registryInv P (snd (downloadImage P env u base (d, w)))"
  proof cases
    case same
    then show ?thesis by (rule registryInv_unchanged[OF inv])
  next
    case dup
    then show ?thesis by (rule registryInv_duplicate[OF inv])
  next
    case new
    then show ?thesis by (rule registryInv_new[OF inv])
  qed
  then show ?thesis unfolding dw .
qed

lemma registryInv_run_job:
  "registryInv P dw \<Longrightarrow> registryInv P (run_job P base calls dw)"
  unfolding run_job_def
  by (induction calls arbitrary: dw) (simp_all add: registryInv_downloadImage)

lemma registryInv_start: "registryInv P (new_downloader conf, new_world)"
  by (simp add: registryInv_def new_downloader_def new_world_def)

text \<open>The entries of a URL that has a path are kept by every later call.\<close>

lemma urlToPath_persists_step:
  assumes "map_of (urlToPath d) v = Some p"
  shows "map_of (urlToPath (fst (snd (downloadImage P env u base (d, w))))) v = Some p"
  using downloadImage_effect[of d w P env u base] assms
  unfolding registryUnchanged_def registeredDuplicate_def registeredNew_def
  by (auto simp: update_conv')

lemma urlToHash_persists_step:
  assumes "map_of (urlToPath d) v = Some p"
  shows "map_of (urlToHash (fst (snd (downloadImage P env u base (d, w))))) v = map_of (urlToHash d) v"
  using downloadImage_effect[of d w P env u base] assms
  unfolding registryUnchanged_def registeredDuplicate_def registeredNew_def
  by (auto simp: update_conv')

lemma maxSize_run_job: "maxSize (fst (run_job P base calls dw)) = maxSize (fst dw)"
  unfolding run_job_def
proof (induction calls arbitrary: dw)
  case Nil
  then show ?case by simp
next
  case (Cons c calls)
  show ?case
    using Cons.IH[of "snd (downloadImage P (snd c) (fst c) base dw)"]
      downloadImage_maxSize[of P "snd c" "fst c" base "fst dw" "snd dw"]
    by simp
qed

lemma persists_run_job:
  assumes "map_of (urlToPath (fst dw)) v = Some p"
  shows "map_of (urlToPath (fst (run_job P base calls dw))) v = Some p
       \<and> map_of (urlToHash (fst (run_job P base calls dw))) v = map_of (urlToHash (fst dw)) v"
  using assms unfolding run_job_def
proof (induction calls arbitrary: dw)
  case Nil
  then show ?case by simp
next
  case (Cons c calls)
  let ?dw1 = "snd (downloadImage P (snd c) (fst c) base dw)"
  have p1: "map_of (urlToPath (fst ?dw1)) v = Some p"
    using urlToPath_persists_step[of "fst dw" v p P "snd c" "fst c" base "snd dw"] Cons.prems by simp
  have h1: "map_of (urlToHash (fst ?dw1)) v = map_of (urlToHash (fst dw)) v"
    using urlToHash_persists_step[of "fst dw" v p P "snd c" "fst c" base "snd dw"] Cons.prems by simp
  show ?case using Cons.IH[OF p1] h1 by simp
qed

lemma registryInv_canonical:
  assumes inv: "registryInv P dw" and path: "map_of (urlToPath (fst dw)) u = Some p"
  shows "pathOfHash (fst dw) (map_of (urlToHash (fst dw)) u) = Some p"
proof -
  obtain h where "map_of (urlToHash (fst dw)) u = Some h" "map_of (hashToPath (fst dw)) h = Some p"
    using inv path unfolding registryInv_def by blast
  then show ?thesis by (simp add: pathOfHash_def)
qed

lemma registryInv_manifest:
  assumes inv: "registryInv P dw" and entry: "e \<in> set (manifest_images (generateManifest P (fst dw)))"
  shows "\<not> m_duplicate e \<and> m_originalFile e = None"
proof -
  obtain v q where vq: "(v, q) \<in> set (urlToPath (fst dw))" and e: "e = manifestEntry P (fst dw) (v, q)"
    using entry by (auto simp: generateManifest_def)
  have "distinct (map fst (urlToPath (fst dw)))" using inv unfolding registryInv_def by blast
  then have "map_of (urlToPath (fst dw)) v = Some q" using vq by simp
  then have "pathOfHash (fst dw) (map_of (urlToHash (fst dw)) v) = Some q"
    using registryInv_canonical[OF inv] by simp
  then show ?thesis unfolding e by (simp add: manifestEntry_def Let_def)
qed

lemma dup_job_run:
  "dup_job = run_job plainPlatform ex_root [(ex_img1, env_ok), (ex_img2, env_ok)] (default_dl, new_world)"
  by (simp add: run_job_def dup_job_def dup_job1_def)

text \<open>
  C10. In every state a job reaches (any sequence of calls of downloadImage, successful or
  not, on a new downloader), a URL \<open>u\<close> with a path in urlToPath has a hash in urlToHash, and
  hashToPath of that hash is the path of \<open>u\<close>. So the comparison that generateManifest and
  updatePagesWithLocalPaths use for the duplicate flag never holds: no manifest entry is
  marked duplicate, and an updated page image of \<open>u\<close> has \<^verbatim>\<open>duplicate: false\<close>.
\<close>

theorem registry_paths_canonical:
  assumes job: "dw = run_job P base calls (new_downloader conf, new_world)"
    and path: "map_of (urlToPath (fst dw)) u = Some p"
  shows "pathOfHash (fst dw) (map_of (urlToHash (fst dw)) u) = Some p
       \<and> (\<forall>e \<in> set (manifest_images (generateManifest P (fst dw))). \<not> m_duplicate e)
       \<and> (\<forall>img. src img = u \<longrightarrow> img_duplicate (updateImage (fst dw) img) = Some False)"
proof -
  have inv: "registryInv P dw" unfolding job by (rule registryInv_run_job) (rule registryInv_start)
  have canon: "pathOfHash (fst dw) (map_of (urlToHash (fst dw)) u) = Some p"
    using registryInv_canonical[OF inv path] .
  have "img_duplicate (updateImage (fst dw) img) = Some False" if "src img = u" for img
    using that path canon by (simp add: updateImage_def)
  then show ?thesis using canon registryInv_manifest[OF inv] by blast
qed

text \<open>
  In the example job the second URL, whose content was a duplicate, is mapped to the path
  of the first file, which is also the path registered for its hash.
\<close>

theorem registry_paths_canonical_witness:
  "map_of (urlToPath (fst dup_job)) ex_img2 = Some ''./output/images/example.com/img/logo.png''
   \<and> pathOfHash (fst dup_job) (map_of (urlToHash (fst dup_job)) ex_img2)
       = Some ''./output/images/example.com/img/logo.png''"
proof -
  have job: "dup_job = run_job plainPlatform ex_root [(ex_img1, env_ok), (ex_img2, env_ok)]
      (new_downloader \<lparr> outputDir = None, cfgMaxSize = None, cfgTimeout = None \<rparr>, new_world)"
    using dup_job_run by (simp add: default_dl_def)
  have path: "map_of (urlToPath (fst dup_job)) ex_img2 = Some ''./output/images/example.com/img/logo.png''"
    by code_simp
  show ?thesis using registry_paths_canonical [OF job path] path by simp
qed

text \<open>
  C4. The manifest does not mark the duplicate. In the example batch the second URL
  delivers the bytes of the first; downloadImage resolves with \<^verbatim>\<open>duplicate: true\<close> for it and
  the batch lists it under duplicates, but generateManifest computes the flag as
  \<^verbatim>\<open>hashToPath.get(hash) !== localPath\<close>, and the duplicate URL was mapped to exactly that
  path: both manifest entries have \<^verbatim>\<open>duplicate: false\<close>, and so have the page images after
  updatePagesWithLocalPaths. The claim says exactly one of the two is marked.
\<close>

theorem manifest_marks_no_duplicate:
  "map r_duplicate (duplicatesList (fst (fst batch))) = [True]
   \<and> map r_url (duplicatesList (fst (fst batch))) = [ex_img2]
   \<and> map m_url (manifest_images (generateManifest plainPlatform (fst (snd batch)))) = [ex_img1, ex_img2]
   \<and> map m_localPath (manifest_images (generateManifest plainPlatform (fst (snd batch))))
       = [''./output/images/example.com/img/logo.png'', ''./output/images/example.com/img/logo.png'']
   \<and> map m_duplicate (manifest_images (generateManifest plainPlatform (fst (snd batch)))) = [False, False]
   \<and> map (\<lambda>pg. map_option (map img_duplicate) (images pg)) (updatePagesWithLocalPaths (fst (snd batch)) ex_pages)
       = [Some [Some False, Some False], Some [Some False, None, None], None]"
  by code_simp

section \<open>Identical content is written once\<close>

lemma downloadImage_delivered:
  assumes fresh: "map_of (urlToPath d) u = None"
    and parse: "parseUrl P u \<noteq> None"
    and mkdir: "mkdirOk env"
    and body: "deliversBody (maxSize d) (net env) b"
  shows "\<exists>w2. files w2 = files w \<and> requests w2 = requests w @ [u] \<and>
           downloadImage P env u base (d, w) =
             (Some (fst (onEnd P env u (getLocalPathFromUrl P d u base) b (length b) (incTotal d, w2))),
              snd (onEnd P env u (getLocalPathFromUrl P d u base) b (length b) (incTotal d, w2)))"
proof -
  obtain cl chunks where net: "net env = Response 200 cl chunks StreamEnd"
    and small: "declaredExcess (maxSize d) cl = None"
    and got: "receiveChunks (maxSize d) chunks [] 0 False = (b, length b, False)"
    using body by (cases "net env") auto
  show ?thesis
  proof (cases rule: downloadImage_cases[of d u P env base w])
    case (cached p)
    then show ?thesis using fresh by simp
  next
    case (early e w1)
    then show ?thesis using parse mkdir net by simp
  next
    case (unanswered e d' w2)
    then show ?thesis using net by auto
  next
    case (answered w2 status cl' chunks' ending)
    let ?lp = "getLocalPathFromUrl P d u base"
    have eq: "downloadImage P env u base (d, w) =
        onResponse P env u ?lp 200 cl chunks StreamEnd (incTotal d, w2)"
      using answered(3,6) net by simp
    have "onResponse P env u ?lp 200 cl chunks StreamEnd (incTotal d, w2) =
        (Some (fst (onEnd P env u ?lp b (length b) (incTotal d, w2))),
         snd (onEnd P env u ?lp b (length b) (incTotal d, w2)))"
      using small got by (simp add: onResponse_def Let_def)
    then show ?thesis using eq answered(4,5) by auto
  qed
qed

lemma delivered_known:
  assumes fresh: "map_of (urlToPath d) u = None"
    and parse: "parseUrl P u \<noteq> None"
    and mkdir: "mkdirOk env"
    and body: "deliversBody (maxSize d) (net env) b"
    and known: "map_of (hashToPath d) (md5hex P b) = Some p"
  shows "files (snd (snd (downloadImage P env u base (d, w)))) = files w
       \<and> hashToPath (fst (snd (downloadImage P env u base (d, w)))) = hashToPath d
       \<and> urlToPath (fst (snd (downloadImage P env u base (d, w)))) = AList.update u p (urlToPath d)
       \<and> urlToHash (fst (snd (downloadImage P env u base (d, w)))) = AList.update u (md5hex P b) (urlToHash d)
       \<and> (\<exists>r. fst (downloadImage P env u base (d, w)) = Some (Inr r) \<and> r_duplicate r
              \<and> r_localPath r = p \<and> r_duplicateOf r = Some p)"
proof -
  obtain w2 where w2: "files w2 = files w"
    and eq: "downloadImage P env u base (d, w) =
      (Some (fst (onEnd P env u (getLocalPathFromUrl P d u base) b (length b) (incTotal d, w2))),
       snd (onEnd P env u (getLocalPathFromUrl P d u base) b (length b) (incTotal d, w2)))"
    using downloadImage_delivered[OF fresh parse mkdir body] by blast
  show ?thesis unfolding eq using known w2 by (simp add: onEnd_def Let_def)
qed

lemma delivered_registered:
  assumes fresh: "map_of (urlToPath d) u = None"
    and parse: "parseUrl P u \<noteq> None"
    and mkdir: "mkdirOk env" and wok: "writeOk env"
    and body: "deliversBody (maxSize d) (net env) b"
  shows "map_of (urlToPath (fst (snd (downloadImage P env u base (d, w))))) u \<noteq> None
       \<and> map_of (urlToHash (fst (snd (downloadImage P env u base (d, w))))) u = Some (md5hex P b)"
proof -
  obtain w2 where eq: "downloadImage P env u base (d, w) =
      (Some (fst (onEnd P env u (getLocalPathFromUrl P d u base) b (length b) (incTotal d, w2))),
       snd (onEnd P env u (getLocalPathFromUrl P d u base) b (length b) (incTotal d, w2)))"
    using downloadImage_delivered[OF fresh parse mkdir body] by blast
  show ?thesis unfolding eq using wok
    by (cases "map_of (hashToPath d) (md5hex P b)") (simp_all add: onEnd_def Let_def update_conv')
qed

lemma filter_distinct_key:
  "distinct (map k xs) \<Longrightarrow> x \<in> set xs \<Longrightarrow> filter (\<lambda>f. k f = k x) xs = [x]"
proof (induction xs)
  case Nil
  then show ?case by simp
next
  case (Cons a xs)
  show ?case
  proof (cases "a = x")
    case True
    have "k x \<notin> k ` set xs" using Cons.prems(1) True by simp
    then have "\<forall>f\<in>set xs. k f \<noteq> k x" by (auto simp: image_iff)
    then have "filter (\<lambda>f. k f = k x) xs = []" by (simp add: filter_empty_conv)
    then show ?thesis using True by simp
  next
    case False
    then have x: "x \<in> set xs" using Cons.prems(2) by simp
    then have "k a \<noteq> k x" using Cons.prems(1) by auto
    then show ?thesis using Cons.IH x Cons.prems(1) by simp
  qed
qed

lemma registryInv_one_file:
  assumes inv: "registryInv P dw" and known: "map_of (hashToPath (fst dw)) h = Some p"
  shows "\<exists>content. filter (\<lambda>f. md5hex P (snd f) = h) (files (snd dw)) = [(p, content)]"
proof -
  have hp: "hashToPath (fst dw) = map (\<lambda>f. (md5hex P (snd f), fst f)) (files (snd dw))"
    and dist: "distinct (map fst (hashToPath (fst dw)))"
    using inv unfolding registryInv_def by blast+
  have d: "distinct (map (\<lambda>f. md5hex P (snd f)) (files (snd dw)))"
    using dist unfolding hp by (simp add: comp_def)
  have "(h, p) \<in> set (hashToPath (fst dw))" using known by (rule map_of_SomeD)
  then obtain f where f: "f \<in> set (files (snd dw))" "md5hex P (snd f) = h" "fst f = p"
    unfolding hp by auto
  have "filter (\<lambda>g. md5hex P (snd g) = md5hex P (snd f)) (files (snd dw)) = [f]"
    using filter_distinct_key[OF d f(1)] .
  then have "filter (\<lambda>g. md5hex P (snd g) = h) (files (snd dw)) = [(p, snd f)]"
    using f(2,3) by (simp add: prod_eq_iff)
  then show ?thesis by blast
qed

lemma manifest_entry_of:
  assumes dist: "distinct (map fst (urlToPath d))" and path: "map_of (urlToPath d) u = Some p"
  shows "map m_localPath (filter (\<lambda>e. m_url e = u) (manifest_images (generateManifest P d))) = [p]"
proof -
  have "(u, p) \<in> set (urlToPath d)" using path by (rule map_of_SomeD)
  then have one: "filter (\<lambda>e. fst e = u) (urlToPath d) = [(u, p)]"
    using filter_distinct_key[OF dist, of "(u, p)"] by simp
  have "map m_localPath (filter (\<lambda>e. m_url e = u) (manifest_images (generateManifest P d)))
      = map snd (filter (\<lambda>e. fst e = u) (urlToPath d))"
    by (simp add: generateManifest_def filter_map comp_def manifestEntry_def Let_def)
  then show ?thesis using one by simp
qed

text \<open>
  C3. Within one job (calls \<open>before\<close>, the download of \<open>u1\<close>, calls \<open>between\<close>, the
  download of \<open>u2\<close>), let \<open>u1\<close> and \<open>u2\<close> be distinct URLs that were not downloaded before
  their call and whose transfers both deliver the bytes \<open>b\<close> (status 200, within the size
  limit, stream ended, URL parsed, directory and, for the first, file writable). Then after
  the second download exactly one of the files written has the content hash of \<open>b\<close>, at a
  path \<open>p\<close>; the second download writes no file and resolves as a duplicate of \<open>p\<close>; both
  URLs have the path \<open>p\<close> in urlToPath; and the manifest has exactly one entry for each of
  the two URLs, with localPath \<open>p\<close>.
\<close>

theorem identical_content_one_file:
  assumes job: "dw0 = run_job P base before (new_downloader conf, new_world)"
    and different: "u1 \<noteq> u2"
    and fresh1: "map_of (urlToPath (fst dw0)) u1 = None"
    and ok1: "parseUrl P u1 \<noteq> None" "mkdirOk env1" "writeOk env1"
    and body1: "deliversBody (maxSize (fst dw0)) (net env1) b"
    and dw1: "dw1 = snd (downloadImage P env1 u1 base dw0)"
    and between: "dw2 = run_job P base between dw1"
    and fresh2: "map_of (urlToPath (fst dw2)) u2 = None"
    and ok2: "parseUrl P u2 \<noteq> None" "mkdirOk env2"
    and body2: "deliversBody (maxSize (fst dw0)) (net env2) b"
    and dw3: "dw3 = snd (downloadImage P env2 u2 base dw2)"
  shows "\<exists>p content.
           filter (\<lambda>f. md5hex P (snd f) = md5hex P b) (files (snd dw3)) = [(p, content)]
         \<and> files (snd dw3) = files (snd dw2)
         \<and> map_of (urlToPath (fst dw3)) u1 = Some p
         \<and> map_of (urlToPath (fst dw3)) u2 = Some p
         \<and> map m_localPath (filter (\<lambda>e. m_url e = u1) (manifest_images (generateManifest P (fst dw3)))) = [p]
         \<and> map m_localPath (filter (\<lambda>e. m_url e = u2) (manifest_images (generateManifest P (fst dw3)))) = [p]
         \<and> (\<exists>r. fst (downloadImage P env2 u2 base dw2) = Some (Inr r) \<and> r_duplicate r
                \<and> r_localPath r = p \<and> r_duplicateOf r = Some p)"
proof -
  have inv0: "registryInv P dw0" unfolding job by (rule registryInv_run_job) (rule registryInv_start)
  have inv1: "registryInv P dw1" unfolding dw1 using inv0 by (rule registryInv_downloadImage)
  have inv2: "registryInv P dw2" unfolding between using inv1 by (rule registryInv_run_job)
  have inv3: "registryInv P dw3" unfolding dw3 using inv2 by (rule registryInv_downloadImage)
  have size1: "maxSize (fst dw1) = maxSize (fst dw0)"
    unfolding dw1 using downloadImage_maxSize[of P env1 u1 base "fst dw0" "snd dw0"] by simp
  have size2: "maxSize (fst dw2) = maxSize (fst dw0)"
    unfolding between using maxSize_run_job[of P base between dw1] size1 by simp
  \<comment> \<open>after the first download\<close>
  have reg1: "map_of (urlToPath (fst dw1)) u1 \<noteq> None \<and> map_of (urlToHash (fst dw1)) u1 = Some (md5hex P b)"
    unfolding dw1
    using delivered_registered[where d="fst dw0" and w="snd dw0" and u=u1 and P=P and env=env1
        and b=b and base=base] fresh1 ok1 body1 by simp
  then obtain p where p1: "map_of (urlToPath (fst dw1)) u1 = Some p"
    and h1: "map_of (urlToHash (fst dw1)) u1 = Some (md5hex P b)" by auto
  \<comment> \<open>the entry of the first URL is kept by the calls in between\<close>
  have p2: "map_of (urlToPath (fst dw2)) u1 = Some p"
    and h2: "map_of (urlToHash (fst dw2)) u1 = Some (md5hex P b)"
    unfolding between using persists_run_job[OF p1, of P base between] h1 by simp_all
  have known: "map_of (hashToPath (fst dw2)) (md5hex P b) = Some p"
    using inv2 p2 h2 unfolding registryInv_def by fastforce
  \<comment> \<open>the second download finds the hash\<close>
  have body2': "deliversBody (maxSize (fst dw2)) (net env2) b" using body2 size2 by simp
  have second: "files (snd dw3) = files (snd dw2)
      \<and> hashToPath (fst dw3) = hashToPath (fst dw2)
      \<and> urlToPath (fst dw3) = AList.update u2 p (urlToPath (fst dw2))"
    and result: "\<exists>r. fst (downloadImage P env2 u2 base dw2) = Some (Inr r) \<and> r_duplicate r
                \<and> r_localPath r = p \<and> r_duplicateOf r = Some p"
    unfolding dw3
    using delivered_known[where d="fst dw2" and w="snd dw2" and u=u2 and P=P and env=env2
        and b=b and base=base and p=p] fresh2 ok2 body2' known by simp_all
  have path2: "map_of (urlToPath (fst dw3)) u2 = Some p"
    using second by (simp add: update_conv')
  have path1: "map_of (urlToPath (fst dw3)) u1 = Some p"
    using second p2 different by (simp add: update_conv')
  have "map_of (hashToPath (fst dw3)) (md5hex P b) = Some p" using second known by simp
  then obtain content where
    one: "filter (\<lambda>f. md5hex P (snd f) = md5hex P b) (files (snd dw3)) = [(p, content)]"
    using registryInv_one_file[OF inv3] by blast
  have dist: "distinct (map fst (urlToPath (fst dw3)))" using inv3 unfolding registryInv_def by blast
  have m1: "map m_localPath (filter (\<lambda>e. m_url e = u1) (manifest_images (generateManifest P (fst dw3)))) = [p]"
    using manifest_entry_of[OF dist path1] .
  have m2: "map m_localPath (filter (\<lambda>e. m_url e = u2) (manifest_images (generateManifest P (fst dw3)))) = [p]"
    using manifest_entry_of[OF dist path2] .
  show ?thesis using one second path1 path2 m1 m2 result
    by (intro exI[of _ p] exI[of _ content] conjI) simp_all
qed

text \<open>
  The theorem on the example job: the one file written is that of the first URL, and it is
  the path of both URLs in urlToPath and in the manifest.
\<close>

theorem identical_content_one_file_witness:
  "files (snd dup_job) = [(''./output/images/example.com/img/logo.png'', ex_bytes)]
   \<and> files (snd dup_job) = files (snd dup_job1)
   \<and> map_of (urlToPath (fst dup_job)) ex_img1 = Some ''./output/images/example.com/img/logo.png''
   \<and> map_of (urlToPath (fst dup_job)) ex_img2 = Some ''./output/images/example.com/img/logo.png''
   \<and> map m_localPath (filter (\<lambda>e. m_url e = ex_img1)
         (manifest_images (generateManifest plainPlatform (fst dup_job))))
       = [''./output/images/example.com/img/logo.png'']
   \<and> map m_localPath (filter (\<lambda>e. m_url e = ex_img2)
         (manifest_images (generateManifest plainPlatform (fst dup_job))))
       = [''./output/images/example.com/img/logo.png'']"
proof -
  have start: "(default_dl, new_world) = run_job plainPlatform ex_root []
      (new_downloader \<lparr> outputDir = None, cfgMaxSize = None, cfgTimeout = None \<rparr>, new_world)"
    by (simp add: run_job_def default_dl_def)
  have different: "ex_img1 \<noteq> ex_img2" by (simp add: ex_img1_def ex_img2_def)
  have fresh1: "map_of (urlToPath (fst (default_dl, new_world))) ex_img1 = None"
    by (simp add: default_dl_def new_downloader_def)
  have parse1: "parseUrl plainPlatform ex_img1 \<noteq> None" by code_simp
  have parse2: "parseUrl plainPlatform ex_img2 \<noteq> None" by code_simp
  have ok: "mkdirOk env_ok" "writeOk env_ok" by (simp_all add: env_ok_def)
  have body: "deliversBody (maxSize (fst (default_dl, new_world))) (net env_ok) ex_bytes"
    by code_simp
  have between: "dup_job1 = run_job plainPlatform ex_root [] dup_job1" by (simp add: run_job_def)
  have fresh2: "map_of (urlToPath (fst dup_job1)) ex_img2 = None" by code_simp
  have written: "files (snd dup_job) = [(''./output/images/example.com/img/logo.png'', ex_bytes)]"
    by code_simp
  from identical_content_one_file [OF start different fresh1 parse1 ok body dup_job1_def
        between fresh2 parse2 ok(1) body dup_job_def]
  obtain p content where
    one: "filter (\<lambda>f. md5hex plainPlatform (snd f) = md5hex plainPlatform ex_bytes) (files (snd dup_job))
           = [(p, content)]"
    and rest: "files (snd dup_job) = files (snd dup_job1)"
      "map_of (urlToPath (fst dup_job)) ex_img1 = Some p"
      "map_of (urlToPath (fst dup_job)) ex_img2 = Some p"
      "map m_localPath (filter (\<lambda>e. m_url e = ex_img1)
         (manifest_images (generateManifest plainPlatform (fst dup_job)))) = [p]"
      "map m_localPath (filter (\<lambda>e. m_url e = ex_img2)
         (manifest_images (generateManifest plainPlatform (fst dup_job)))) = [p]"
    by auto
  have "p = ''./output/images/example.com/img/logo.png''"
    using one unfolding written by simp
  then show ?thesis using written rest by simp
qed

section \<open>The URL cache\<close>

lemma onEnd_success:
  assumes "onEnd P env u lp content n (d, w) = (Inr r, dw')"
  shows "map_of (urlToPath (fst dw')) u = Some (r_localPath r)
       \<and> map_of (urlToHash (fst dw')) u = r_hash r \<and> r_url r = u \<and> \<not> r_cached r"
proof (cases "map_of (hashToPath d) (md5hex P content)")
  case None
  then show ?thesis using assms
    by (cases "writeOk env") (auto simp: onEnd_def Let_def update_conv')
next
  case (Some existingPath)
  then show ?thesis using assms by (auto simp: onEnd_def Let_def update_conv')
qed

lemma onEnd_frame:
  "total (stats (fst (snd (onEnd P env u lp content n (d, w))))) = total (stats d)
   \<and> requests (snd (snd (onEnd P env u lp content n (d, w)))) = requests w"
  by (cases "map_of (hashToPath d) (md5hex P content)")
     (simp_all add: onEnd_def Let_def incDuplicates_def)

lemma onResponse_frame:
  "total (stats (fst (snd (onResponse P env u lp status cl chunks ending (d, w))))) = total (stats d)
   \<and> requests (snd (snd (onResponse P env u lp status cl chunks ending (d, w)))) = requests w"
  by (cases rule: onResponse_cases[of status d cl P env u lp chunks ending w])
     (simp_all add: onEnd_frame)

lemma onResponse_success:
  assumes "onResponse P env u lp status cl chunks ending (d, w) = (Some (Inr r), dw')"
  shows "map_of (urlToPath (fst dw')) u = Some (r_localPath r)
       \<and> map_of (urlToHash (fst dw')) u = r_hash r \<and> r_url r = u \<and> \<not> r_cached r"
proof (cases rule: onResponse_cases[of status d cl P env u lp chunks ending w])
  case (early e)
  then show ?thesis using assms by simp
next
  case (ended content n rejected)
  from assms ended(5) have res: "settle (if rejected then Some (Inl SizeExceeded) else None)
      (fst (onEnd P env u lp content n (d, w))) = Some (Inr r)"
    and st: "snd (onEnd P env u lp content n (d, w)) = dw'" by simp_all
  from res have "fst (onEnd P env u lp content n (d, w)) = Inr r"
    by (cases rejected) simp_all
  then have "onEnd P env u lp content n (d, w) = (Inr r, dw')" using st by (simp add: prod_eq_iff)
  then show ?thesis by (rule onEnd_success)
next
  case (failed e)
  then show ?thesis using assms by simp
next
  case (aborted r')
  then show ?thesis using assms by (simp split: if_splits)
qed

lemma downloadImage_success:
  assumes "downloadImage P env u base (d, w) = (Some (Inr r), dw')"
  shows "map_of (urlToPath (fst dw')) u = Some (r_localPath r)
       \<and> map_of (urlToHash (fst dw')) u = r_hash r \<and> r_url r = u"
proof (cases rule: downloadImage_cases[of d u P env base w])
  case (cached p)
  then show ?thesis using assms by auto
next
  case (early e w1)
  then show ?thesis using assms by simp
next
  case (unanswered e d' w2)
  then show ?thesis using assms by simp
next
  case (answered w2 status cl chunks ending)
  from assms have "onResponse P env u (getLocalPathFromUrl P d u base) status cl chunks ending
      (incTotal d, w2) = (Some (Inr r), dw')"
    unfolding answered(6) .
  from onResponse_success[OF this] show ?thesis by simp
qed

lemma downloadImage_cached:
  assumes "map_of (urlToPath d) u = Some p"
  shows "downloadImage P env u base (d, w) =
           (Some (Inr \<lparr> r_url = u, r_localPath = p, r_hash = map_of (urlToHash d) u,
                        r_duplicate = True, r_cached = True, r_duplicateOf = None, r_size = None \<rparr>),
            incDuplicates (incTotal d), w)"
  using assms by (simp add: downloadImage_def Let_def)

lemma downloadImage_fetches:
  assumes fresh: "map_of (urlToPath d) u = None"
    and parse: "parseUrl P u \<noteq> None"
    and dir: "mkdirOk env \<or> pathDirname P (getLocalPathFromUrl P d u base) \<in> set (dirs w)"
    and sent: "net env \<noteq> RequestThrows"
  shows "requests (snd (snd (downloadImage P env u base (d, w)))) = requests w @ [u]
       \<and> (\<forall>r. fst (downloadImage P env u base (d, w)) = Some (Inr r) \<longrightarrow> \<not> r_cached r)"
proof (cases rule: downloadImage_cases[of d u P env base w])
  case (cached p)
  then show ?thesis using fresh by simp
next
  case (early e w1)
  then show ?thesis using parse dir sent by auto
next
  case (unanswered e d' w2)
  then show ?thesis by simp
next
  case (answered w2 status cl chunks ending)
  let ?call = "onResponse P env u (getLocalPathFromUrl P d u base) status cl chunks ending (incTotal d, w2)"
  have req: "requests (snd (snd ?call)) = requests w @ [u]"
    using onResponse_frame[of P env u "getLocalPathFromUrl P d u base" status cl chunks ending
        "incTotal d" w2] answered(5) by simp
  have "\<not> r_cached r" if "fst ?call = Some (Inr r)" for r
  proof -
    have "?call = (Some (Inr r), snd ?call)" using that by (simp add: prod_eq_iff)
    from onResponse_success[OF this] show ?thesis by simp
  qed
  then show ?thesis unfolding answered(6) using req by blast
qed

text \<open>
  C8. The cache of downloadImage is urlToPath. Once a call for \<open>u\<close> has resolved (with
  \<open>r1\<close>), every later call for \<open>u\<close> in the job resolves at once with the stored path and
  hash, marked \<^verbatim>\<open>duplicate: true, cached: true\<close>, whatever the environment would do: the world
  is unchanged (no request, no file), and only the counters total and duplicates go up.
  In general a call is answered from the cache exactly when its URL has an entry in
  urlToPath, whether or not the URL was attempted before and however the attempt ended: a
  URL \<open>v\<close> with an entry is answered at once in that way; a URL \<open>v\<close> without an entry is
  not, and when \<open>v\<close> parses, its directory exists or can be made and \<^verbatim>\<open>protocol.get\<close> does not
  throw, the call sends a request for \<open>v\<close>, and a record it resolves with is not marked
  cached.
\<close>

theorem cached_after_success:
  assumes first: "downloadImage P env1 u base dw = (Some (Inr r1), dw1)"
    and later: "dw2 = run_job P base between dw1"
  shows "downloadImage P env2 u base dw2 =
           (Some (Inr \<lparr> r_url = u, r_localPath = r_localPath r1, r_hash = r_hash r1,
                        r_duplicate = True, r_cached = True, r_duplicateOf = None, r_size = None \<rparr>),
            incDuplicates (incTotal (fst dw2)), snd dw2)
       \<and> (\<forall>v p. map_of (urlToPath (fst dw2)) v = Some p
            \<longrightarrow> downloadImage P env3 v base dw2 =
                  (Some (Inr \<lparr> r_url = v, r_localPath = p, r_hash = map_of (urlToHash (fst dw2)) v,
                               r_duplicate = True, r_cached = True, r_duplicateOf = None,
                               r_size = None \<rparr>),
                   incDuplicates (incTotal (fst dw2)), snd dw2))
       \<and> (\<forall>v. map_of (urlToPath (fst dw2)) v = None \<and> parseUrl P v \<noteq> None
              \<and> (mkdirOk env3 \<or> pathDirname P (getLocalPathFromUrl P (fst dw2) v base) \<in> set (dirs (snd dw2)))
              \<and> net env3 \<noteq> RequestThrows
            \<longrightarrow> requests (snd (snd (downloadImage P env3 v base dw2))) = requests (snd dw2) @ [v]
                \<and> (\<forall>r. fst (downloadImage P env3 v base dw2) = Some (Inr r) \<longrightarrow> \<not> r_cached r))"
proof -
  have reg: "map_of (urlToPath (fst dw1)) u = Some (r_localPath r1)"
    and h: "map_of (urlToHash (fst dw1)) u = r_hash r1"
    using downloadImage_success[of P env1 u base "fst dw" "snd dw" r1 dw1] first by simp_all
  have "map_of (urlToPath (fst dw2)) u = Some (r_localPath r1)"
    and "map_of (urlToHash (fst dw2)) u = r_hash r1"
    unfolding later using persists_run_job[OF reg, of P base between] h by simp_all
  then have hit: "downloadImage P env2 u base dw2 =
           (Some (Inr \<lparr> r_url = u, r_localPath = r_localPath r1, r_hash = r_hash r1,
                        r_duplicate = True, r_cached = True, r_duplicateOf = None, r_size = None \<rparr>),
            incDuplicates (incTotal (fst dw2)), snd dw2)"
    using downloadImage_cached[of "fst dw2" u "r_localPath r1" P env2 base "snd dw2"] by simp
  have miss: "requests (snd (snd (downloadImage P env3 v base dw2))) = requests (snd dw2) @ [v]
      \<and> (\<forall>r. fst (downloadImage P env3 v base dw2) = Some (Inr r) \<longrightarrow> \<not> r_cached r)"
    if "map_of (urlToPath (fst dw2)) v = None \<and> parseUrl P v \<noteq> None
        \<and> (mkdirOk env3 \<or> pathDirname P (getLocalPathFromUrl P (fst dw2) v base) \<in> set (dirs (snd dw2)))
        \<and> net env3 \<noteq> RequestThrows" for v
    using downloadImage_fetches[of "fst dw2" v P env3 base "snd dw2"] that by simp
  have entry: "downloadImage P env3 v base dw2 =
        (Some (Inr \<lparr> r_url = v, r_localPath = p, r_hash = map_of (urlToHash (fst dw2)) v,
                     r_duplicate = True, r_cached = True, r_duplicateOf = None, r_size = None \<rparr>),
         incDuplicates (incTotal (fst dw2)), snd dw2)"
    if "map_of (urlToPath (fst dw2)) v = Some p" for v p
    using downloadImage_cached[OF that, of P env3 base "snd dw2"] by simp
  show ?thesis using hit entry miss by blast
qed

text \<open>
  The first image is downloaded and the third is answered with 404; a later call for the
  first is answered from the cache, a later call for the third sends a second request.
\<close>

theorem cached_after_success_witness:
  "fst (downloadImage plainPlatform env_404 ex_img1 ex_root cache_job) =
     Some (Inr \<lparr> r_url = ex_img1, r_localPath = ''./output/images/example.com/img/logo.png'',
                  r_hash = Some (md5hex plainPlatform ex_bytes),
                  r_duplicate = True, r_cached = True, r_duplicateOf = None, r_size = None \<rparr>)
   \<and> snd (snd (downloadImage plainPlatform env_404 ex_img1 ex_root cache_job)) = snd cache_job
   \<and> requests (snd cache_job) = [ex_img1, ex_img3]
   \<and> requests (snd (snd (downloadImage plainPlatform env_ok ex_img3 ex_root cache_job)))
       = [ex_img1, ex_img3, ex_img3]"
proof -
  have first: "downloadImage plainPlatform env_ok ex_img1 ex_root (default_dl, new_world) =
      (Some (Inr \<lparr> r_url = ex_img1, r_localPath = ''./output/images/example.com/img/logo.png'',
              r_hash = Some (md5hex plainPlatform ex_bytes),
              r_duplicate = False, r_cached = False, r_duplicateOf = None, r_size = Some 4 \<rparr>), dup_job1)"
  proof -
    have "fst (downloadImage plainPlatform env_ok ex_img1 ex_root (default_dl, new_world)) =
      Some (Inr \<lparr> r_url = ex_img1, r_localPath = ''./output/images/example.com/img/logo.png'',
              r_hash = Some (md5hex plainPlatform ex_bytes),
              r_duplicate = False, r_cached = False, r_duplicateOf = None, r_size = Some 4 \<rparr>)"
      by code_simp
    then show ?thesis unfolding dup_job1_def by (simp add: prod_eq_iff)
  qed
  have later: "cache_job = run_job plainPlatform ex_root [(ex_img3, env_404)] dup_job1"
    by (simp add: run_job_def cache_job_def)
  have fresh: "map_of (urlToPath (fst cache_job)) ex_img3 = None" by code_simp
  have parse: "parseUrl plainPlatform ex_img3 \<noteq> None" by code_simp
  have env: "mkdirOk env_ok" "net env_ok \<noteq> RequestThrows" by (simp_all add: env_ok_def)
  have before: "requests (snd cache_job) = [ex_img1, ex_img3]" by code_simp
  show ?thesis
    using cached_after_success [OF first later, of env_404 env_ok] fresh parse env before by simp
qed

text \<open>
  The claim as stated fails for a URL whose first attempt was answered with 404: nothing is
  cached for it, and the second call sends a second request.
\<close>

theorem failed_attempt_not_cached:
  "fst (downloadImage plainPlatform env_404 ex_img3 ex_root (default_dl, new_world)) = Some (Inl (HttpError 404))
   \<and> requests (snd (snd (downloadImage plainPlatform env_404 ex_img3 ex_root (default_dl, new_world)))) = [ex_img3]
   \<and> requests (snd (snd (downloadImage plainPlatform env_ok ex_img3 ex_root
         (snd (downloadImage plainPlatform env_404 ex_img3 ex_root (default_dl, new_world))))))
       = [ex_img3, ex_img3]
   \<and> map_option (map_sum id r_cached) (fst (downloadImage plainPlatform env_ok ex_img3 ex_root
         (snd (downloadImage plainPlatform env_404 ex_img3 ex_root (default_dl, new_world)))))
       = Some (Inr False)"
  by code_simp

section \<open>The size limit\<close>

text \<open>
  The check of the declared length: the call rejects before any chunk is read, and nothing
  is written or registered.
\<close>

lemma declared_oversize_rejected:
  assumes fresh: "map_of (urlToPath d) u = None"
    and parse: "parseUrl P u \<noteq> None" and mkdir: "mkdirOk env"
    and resp: "net env = Response 200 contentLength chunks ending"
    and over: "declaredExcess (maxSize d) contentLength = Some n"
  shows "fst (downloadImage P env u base (d, w)) = Some (Inl (ImageTooLarge n))
       \<and> registryUnchanged (d, w) (snd (downloadImage P env u base (d, w)))"
proof (cases rule: downloadImage_cases[of d u P env base w])
  case (cached p)
  then show ?thesis using fresh by simp
next
  case (early e w1)
  then show ?thesis using parse mkdir resp by simp
next
  case (unanswered e d' w2)
  then show ?thesis using resp by auto
next
  case (answered w2 status cl chunks' ending')
  have "downloadImage P env u base (d, w) =
      onResponse P env u (getLocalPathFromUrl P d u base) 200 contentLength chunks ending (incTotal d, w2)"
    using answered(3,6) resp by simp
  then have "downloadImage P env u base (d, w) =
      (Some (Inl (ImageTooLarge n)), requestEvent ending (incTotal d), w2)"
    using over by (simp add: onResponse_def Let_def)
  then show ?thesis using answered(4) by (simp add: registryUnchanged_def)
qed

text \<open>
  C7. A body that exceeds the maximum is rejected but not dropped. The \<^verbatim>\<open>'data'\<close> handler
  rejects the promise and destroys the request when the size passes the maximum, but the
  \<^verbatim>\<open>'end'\<close> handler has no guard: when \<^verbatim>\<open>'end'\<close> is delivered it hashes, writes and registers
  the chunks appended before the overflow. With a maximum of 3 bytes and a body of two
  chunks of 2 bytes (no declared length), the call rejects with ``Image size exceeded
  maximum'', yet the first chunk is written under the local path of the URL, the URL is
  registered in all three maps, the counter downloaded goes up and the counter failed does
  not, and a later call for the URL is answered from the cache with that path. The claim
  says that no file is written and no partial data is retained.
\<close>

theorem oversize_body_written:
  "maxSize small_dl = 3
   \<and> net env_undeclared = Response 200 None [[137, 80], [78, 71]] StreamEnd
   \<and> fst small_job = Some (Inl SizeExceeded)
   \<and> files (snd (snd small_job)) = [(''./output/images/example.com/img/logo.png'', [137, 80])]
   \<and> urlToPath (fst (snd small_job)) = [(ex_img1, ''./output/images/example.com/img/logo.png'')]
   \<and> urlToHash (fst (snd small_job)) = [(ex_img1, md5hex plainPlatform [137, 80])]
   \<and> hashToPath (fst (snd small_job))
       = [(md5hex plainPlatform [137, 80], ''./output/images/example.com/img/logo.png'')]
   \<and> downloaded (stats (fst (snd small_job))) = 1
   \<and> failed (stats (fst (snd small_job))) = 0
   \<and> map_option (map_sum id (\<lambda>r. (r_localPath r, r_cached r)))
         (fst (downloadImage plainPlatform env_ok ex_img1 ex_root (snd small_job)))
       = Some (Inr (''./output/images/example.com/img/logo.png'', True))"
  by code_simp

text \<open>
  The status is checked before the sizes: a 404 that declares 20000000 bytes is reported
  as HTTP 404, not as a size error.
\<close>

lemma oversize_with_error_status:
  "net env_404 = Response 404 (Some 20000000) [] StreamEnd
   \<and> maxSize default_dl = 10485760
   \<and> fst (downloadImage plainPlatform env_404 ex_img3 ex_root (default_dl, new_world)) = Some (Inl (HttpError 404))"
  by code_simp

section \<open>The batch\<close>

lemma downloadImage_frame:
  "total (stats (fst (snd (downloadImage P env u base (d, w))))) = total (stats d) + 1
   \<and> (requests (snd (snd (downloadImage P env u base (d, w)))) = requests w
      \<or> requests (snd (snd (downloadImage P env u base (d, w)))) = requests w @ [u])"
proof (cases rule: downloadImage_cases[of d u P env base w])
  case (cached p)
  then show ?thesis by simp
next
  case (early e w1)
  then show ?thesis by simp
next
  case (unanswered e d' w2)
  from unanswered(6) have "total (stats d') = total (stats d) + 1" by auto
  then show ?thesis using unanswered(5,7) by simp
next
  case (answered w2 status cl chunks ending)
  show ?thesis unfolding answered(6) using answered(5) by (simp add: onResponse_frame)
qed

lemma downloadImage_result_url:
  assumes "fst (downloadImage P env u base dw) = Some (Inr r)"
  shows "r_url r = u"
proof -
  obtain d w where dw: "dw = (d, w)" by (cases dw)
  have "downloadImage P env u base (d, w) = (Some (Inr r), snd (downloadImage P env u base (d, w)))"
    using assms dw by (simp add: prod_eq_iff)
  then show ?thesis by (rule downloadImage_success[THEN conjunct2, THEN conjunct2])
qed

text \<open>
  A call settles unless the connection is closed while the body is read: the promise stays
  pending only in that case.
\<close>

lemma settle_Some: "settle settled r \<noteq> None"
  by (cases settled) simp_all

lemma downloadImage_settles:
  assumes "\<forall>status cl chunks. net env \<noteq> Response status cl chunks StreamAborted"
  shows "fst (downloadImage P env u base dw) \<noteq> None"
proof -
  obtain d w where dw: "dw = (d, w)" by (cases dw)
  have "fst (downloadImage P env u base (d, w)) \<noteq> None"
  proof (cases rule: downloadImage_cases[of d u P env base w])
    case (cached p)
    then show ?thesis by simp
  next
    case (early e w1)
    then show ?thesis by simp
  next
    case (unanswered e d' w2)
    then show ?thesis by simp
  next
    case (answered w2 status cl chunks ending)
    have "fst (onResponse P env u (getLocalPathFromUrl P d u base) status cl chunks ending
        (incTotal d, w2)) \<noteq> None"
    proof (cases rule: onResponse_cases[of status "incTotal d" cl P env u
          "getLocalPathFromUrl P d u base" chunks ending w2])
      case (early e)
      then show ?thesis by simp
    next
      case (ended content n rejected)
      then show ?thesis by (simp add: settle_Some)
    next
      case (failed e)
      then show ?thesis by simp
    next
      case (aborted r)
      then show ?thesis using assms answered(3) by simp
    qed
    then show ?thesis unfolding answered(6) .
  qed
  then show ?thesis unfolding dw .
qed

lemma downloadLoop_step:
  "downloadLoop P env base (u # us) st =
     (case fst (downloadImage P (env u) u base (snd st)) of
        None \<Rightarrow> None
      | Some (Inr result) \<Rightarrow>
          downloadLoop P env base us
            (if r_duplicate result
             then (fst st)\<lparr> duplicatesList := duplicatesList (fst st) @ [result] \<rparr>
             else (fst st)\<lparr> success := success (fst st) @ [result] \<rparr>,
             snd (downloadImage P (env u) u base (snd st)))
      | Some (Inl err) \<Rightarrow>
          downloadLoop P env base us
            ((fst st)\<lparr> failedList := failedList (fst st) @ [(u, err)] \<rparr>,
             snd (downloadImage P (env u) u base (snd st))))"
  by (simp add: Let_def)

lemma downloadLoop_returns:
  assumes "\<forall>u\<in>set us. \<forall>status cl chunks. net (env u) \<noteq> Response status cl chunks StreamAborted"
  shows "downloadLoop P env base us st \<noteq> None"
  using assms
proof (induction us arbitrary: st)
  case Nil
  then show ?case by simp
next
  case (Cons u us)
  have "\<forall>status cl chunks. net (env u) \<noteq> Response status cl chunks StreamAborted"
    using Cons.prems by simp
  then have settled: "fst (downloadImage P (env u) u base (snd st)) \<noteq> None"
    by (rule downloadImage_settles)
  have rest: "\<And>st'. downloadLoop P env base us st' \<noteq> None"
    using Cons.IH Cons.prems by simp
  from settled obtain res where res: "fst (downloadImage P (env u) u base (snd st)) = Some res"
    by auto
  show ?case unfolding downloadLoop_step res using rest by (cases res) simp_all
qed

lemma downloadLoop_covers:
  assumes "downloadLoop P env base us st = Some st'"
  shows "mset (coveredUrls (fst st')) = mset (coveredUrls (fst st)) + mset us
   \<and> mset (map fst (failedList (fst st'))) \<subseteq># mset (map fst (failedList (fst st))) + mset us
   \<and> total (stats (fst (snd st'))) = total (stats (fst (snd st))) + length us
   \<and> (\<exists>rs. requests (snd (snd st')) = requests (snd (snd st)) @ rs
          \<and> set rs \<subseteq> set us \<and> (distinct us \<longrightarrow> distinct rs))"
  using assms
proof (induction us arbitrary: st)
  case Nil
  then show ?case by simp
next
  case (Cons u us)
  define called where "called = downloadImage P (env u) u base (snd st)"
  from Cons.prems obtain res where res: "fst called = Some res"
    unfolding downloadLoop_step called_def by (cases "fst (downloadImage P (env u) u base (snd st))") auto
  define results' where "results' =
     (case res of
        Inr result \<Rightarrow>
          if r_duplicate result
          then (fst st)\<lparr> duplicatesList := duplicatesList (fst st) @ [result] \<rparr>
          else (fst st)\<lparr> success := success (fst st) @ [result] \<rparr>
      | Inl err \<Rightarrow> (fst st)\<lparr> failedList := failedList (fst st) @ [(u, err)] \<rparr>)"
  have step: "downloadLoop P env base (u # us) st = downloadLoop P env base us (results', snd called)"
    unfolding downloadLoop_step using res
    by (cases res) (simp_all add: called_def results'_def)
  have covered: "mset (coveredUrls results') = mset (coveredUrls (fst st)) + {#u#}"
  proof (cases res)
    case (Inl err)
    then show ?thesis by (simp add: results'_def coveredUrls_def)
  next
    case (Inr result)
    then have "r_url result = u" using res unfolding called_def by (simp add: downloadImage_result_url)
    then show ?thesis using Inr by (simp add: results'_def coveredUrls_def)
  qed
  have failures: "mset (map fst (failedList results')) \<subseteq># mset (map fst (failedList (fst st))) + {#u#}"
    by (cases res) (simp_all add: results'_def)
  have frame: "total (stats (fst (snd called))) = total (stats (fst (snd st))) + 1
      \<and> (requests (snd (snd called)) = requests (snd (snd st))
         \<or> requests (snd (snd called)) = requests (snd (snd st)) @ [u])"
    unfolding called_def
    using downloadImage_frame[of P "env u" u base "fst (snd st)" "snd (snd st)"] by simp
  have run: "downloadLoop P env base us (results', snd called) = Some st'"
    using Cons.prems unfolding step .
  from Cons.IH[OF run] obtain rs where
    ih: "mset (coveredUrls (fst st')) = mset (coveredUrls results') + mset us"
      "mset (map fst (failedList (fst st'))) \<subseteq># mset (map fst (failedList results')) + mset us"
      "total (stats (fst (snd st'))) = total (stats (fst (snd called))) + length us"
      "requests (snd (snd st')) = requests (snd (snd called)) @ rs"
      "set rs \<subseteq> set us" "distinct us \<longrightarrow> distinct rs"
    by auto
  from frame obtain r0 where r0: "requests (snd (snd called)) = requests (snd (snd st)) @ r0"
    "r0 = [] \<or> r0 = [u]" by auto
  have reqs: "requests (snd (snd st')) = requests (snd (snd st)) @ (r0 @ rs)"
    using ih(4) r0(1) by simp
  have sub: "set (r0 @ rs) \<subseteq> set (u # us)" using ih(5) r0(2) by auto
  have dist: "distinct (u # us) \<longrightarrow> distinct (r0 @ rs)" using ih(5,6) r0(2) by auto
  have c1: "mset (coveredUrls (fst st')) = mset (coveredUrls (fst st)) + mset (u # us)"
    using ih(1) covered by simp
  have "mset (map fst (failedList results')) + mset us
      \<subseteq># mset (map fst (failedList (fst st))) + {#u#} + mset us"
    using failures by (rule mset_subset_eq_mono_add) simp
  then have c2: "mset (map fst (failedList (fst st'))) \<subseteq># mset (map fst (failedList (fst st))) + mset (u # us)"
    using ih(2) by (simp add: subset_mset.order_trans)
  have c3: "total (stats (fst (snd st'))) = total (stats (fst (snd st))) + length (u # us)"
    using ih(3) frame by simp
  show ?case using c1 c2 c3 reqs sub dist by blast
qed

lemma set_add_props: "distinct xs \<Longrightarrow> distinct (set_add x xs)" "set (set_add x xs) = insert x (set xs)"
  by (auto simp: set_add_def)

lemma collect_images:
  "distinct acc \<Longrightarrow>
   distinct (foldl (\<lambda>acc2 img. if src img \<noteq> [] then set_add (src img) acc2 else acc2) acc imgs)
   \<and> set (foldl (\<lambda>acc2 img. if src img \<noteq> [] then set_add (src img) acc2 else acc2) acc imgs)
       = set acc \<union> {s. s \<noteq> [] \<and> s \<in> src ` set imgs}"
proof (induction imgs arbitrary: acc)
  case Nil
  then show ?case by simp
next
  case (Cons img imgs)
  let ?acc1 = "if src img \<noteq> [] then set_add (src img) acc else acc"
  have d1: "distinct ?acc1" using Cons.prems by (simp add: set_add_props)
  have s1: "set ?acc1 = set acc \<union> (if src img \<noteq> [] then {src img} else {})"
    by (simp add: set_add_props)
  from Cons.IH[OF d1] s1 show ?case by auto
qed

lemma collect_pages:
  "distinct acc \<Longrightarrow>
   distinct (foldl (\<lambda>acc pg. case images pg of
                       None \<Rightarrow> acc
                     | Some imgs \<Rightarrow>
                         foldl (\<lambda>acc2 img. if src img \<noteq> [] then set_add (src img) acc2 else acc2) acc imgs)
       acc pages)
   \<and> set (foldl (\<lambda>acc pg. case images pg of
                       None \<Rightarrow> acc
                     | Some imgs \<Rightarrow>
                         foldl (\<lambda>acc2 img. if src img \<noteq> [] then set_add (src img) acc2 else acc2) acc imgs)
       acc pages) = set acc \<union> (\<Union>pg \<in> set pages. pageUrls pg)"
proof (induction pages arbitrary: acc)
  case Nil
  then show ?case by simp
next
  case (Cons pg pages)
  show ?case
  proof (cases "images pg")
    case None
    then show ?thesis using Cons.IH[OF Cons.prems] by (simp add: pageUrls_def)
  next
    case (Some imgs)
    let ?acc1 = "foldl (\<lambda>acc2 img. if src img \<noteq> [] then set_add (src img) acc2 else acc2) acc imgs"
    from collect_images[OF Cons.prems, of imgs]
    have d1: "distinct ?acc1" and s1: "set ?acc1 = set acc \<union> pageUrls pg"
      using Some by (simp_all add: pageUrls_def)
    from Cons.IH[OF d1] s1 Some show ?thesis by (simp add: Un_assoc)
  qed
qed

lemma collectUrls_set:
  "distinct (collectUrls pages) \<and> set (collectUrls pages) = (\<Union>pg \<in> set pages. pageUrls pg)"
  unfolding collectUrls_def using collect_pages[of "[]" pages] by simp

text \<open>
  What holds of the batch when it returns: the URLs collected are distinct and are exactly
  the non-empty image sources of the pages; the success, duplicates and failed lists of the
  result together hold each collected URL exactly once; downloadImage was called once per
  collected URL; and the requests sent are distinct URLs among the collected ones. It
  returns when no response is cut off while its body is read.
\<close>

lemma downloadAllImages_covers:
  assumes "downloadAllImages P env base pages dw = Some res"
  shows "distinct (collectUrls pages)
   \<and> set (collectUrls pages) = (\<Union>pg \<in> set pages. pageUrls pg)
   \<and> mset (coveredUrls (fst (fst res))) = mset (collectUrls pages)
   \<and> total (stats (fst (snd res))) = total (stats (fst dw)) + length (collectUrls pages)
   \<and> (\<exists>rs. requests (snd (snd res)) = requests (snd dw) @ rs
          \<and> set rs \<subseteq> set (collectUrls pages) \<and> distinct rs)"
proof -
  let ?st = "(\<lparr> success = [], failedList = [], duplicatesList = [] \<rparr>, dw)"
  have d: "distinct (collectUrls pages)" using collectUrls_set by blast
  from assms obtain st' where run: "downloadLoop P env base (collectUrls pages) ?st = Some st'"
    and res: "res = ((fst st', stats (fst (snd st'))), snd st')"
    by (auto simp: downloadAllImages_def Let_def split: option.splits)
  from downloadLoop_covers[OF run] d
  show ?thesis
    using collectUrls_set[of pages] unfolding res
    by (simp add: coveredUrls_def)
qed

lemma downloadAllImages_returns:
  assumes "\<forall>u\<in>set (collectUrls pages). \<forall>status cl chunks.
             net (env u) \<noteq> Response status cl chunks StreamAborted"
  shows "downloadAllImages P env base pages dw \<noteq> None"
  using downloadLoop_returns[OF assms, of P base
      "(\<lparr> success = [], failedList = [], duplicatesList = [] \<rparr>, dw)"]
  by (auto simp: downloadAllImages_def Let_def split: option.splits)

text \<open>
  C9. The batch does not always complete. downloadImage listens to \<^verbatim>\<open>'data'\<close> and \<^verbatim>\<open>'end'\<close> on
  the response and to \<^verbatim>\<open>'error'\<close> and \<^verbatim>\<open>'timeout'\<close> on the request; when the connection is closed
  while the body is read, none of them is raised, the promise stays pending and the
  \<^verbatim>\<open>await\<close> in downloadAllImages never returns. In the example the pages refer to three
  unique URLs; the first is downloaded; the response for the second is cut off after its
  first chunk: the call for it does not settle and downloadAllImages does not return, so
  the third URL is never attempted and there is no result. The claim says that a failure
  of one URL never aborts the batch and that the result covers every unique URL.
\<close>

theorem downloadAllImages_never_returns:
  "collectUrls ex_pages = [ex_img1, ex_img2, ex_img3]
   \<and> net (ex_env_aborted ex_img2) = Response 200 (Some 4) [[137, 80]] StreamAborted
   \<and> map_option (map_sum id r_url) (fst (downloadImage plainPlatform (ex_env_aborted ex_img1) ex_img1 ex_root
         (default_dl, new_world))) = Some (Inr ex_img1)
   \<and> fst (downloadImage plainPlatform (ex_env_aborted ex_img2) ex_img2 ex_root dup_job1) = None
   \<and> downloadAllImages plainPlatform ex_env_aborted ex_root ex_pages (default_dl, new_world) = None"
  by code_simp

end
